theory Spec2Isabelle
  imports Complex_Main "HOL-Library.Log_Nat"
begin

section \<open>Single-precision values\<close>

text \<open>
  \<^verbatim>\<open>float32_t\<close> is the IEEE 754 binary32 type. A value is modelled by the rational
  number it denotes, or as one of the three special values. The two zeros are identified:
  the routine never divides and never inspects a sign bit, so the sign of a zero cannot
  be observed. Every arithmetic operation is the exact operation on the rationals
  followed by rounding to nearest, ties to even, with 24 significant bits, a least
  exponent of \<open>-149\<close> (gradual underflow) and overflow to infinity from \<open>2^128\<close> on.
\<close>

text \<open>Modelled from the spec: the typedef \<^verbatim>\<open>float32_t\<close> comes from \<^verbatim>\<open>arm_math.h\<close>, which is
  not among the sources; the spec gives the type as single-precision floating point.\<close>

datatype float32 = Finite rat | PInf | NInf | NaN

text \<open>\<open>ilog2 q\<close> is \<open>\<lfloor>log\<^sub>2 q\<rfloor>\<close> for a positive rational: the bit length of its integer
  part when \<open>1 \<le> q\<close>, and of the integer part of its reciprocal otherwise.\<close>

definition ilog2 :: "rat \<Rightarrow> int" where
  "ilog2 q = (if 1 \<le> q then bitlen \<lfloor>q\<rfloor> - 1 else - bitlen (\<lceil>1 / q\<rceil> - 1))"

definition round_half_even :: "rat \<Rightarrow> int" where
  "round_half_even q =
     (let f = \<lfloor>q\<rfloor>; d = q - of_int f
      in if d < 1 / 2 then f else if 1 / 2 < d then f + 1
         else if even f then f else f + 1)"

text \<open>The exponent of the last place of the single-precision numbers around \<open>q\<close>.\<close>

definition f32_exp :: "rat \<Rightarrow> int" where
  "f32_exp q = max (ilog2 \<bar>q\<bar> - 23) (- 149)"

text \<open>The multiple of \<open>2\<^sup>e\<close> nearest to \<open>q\<close>, ties to the even multiple.\<close>

definition quantize :: "int \<Rightarrow> rat \<Rightarrow> rat" where
  "quantize e q = of_int (round_half_even (q / 2 powi e)) * 2 powi e"

definition round_f32 :: "rat \<Rightarrow> float32" where
  "round_f32 q =
     (if q = 0 then Finite 0
      else let r = quantize (f32_exp q) q
           in if 2 ^ 128 \<le> r then PInf else if r \<le> - (2 ^ 128) then NInf else Finite r)"

text \<open>The finite values a \<^verbatim>\<open>float32_t\<close> variable can hold are the rationals that rounding
  leaves unchanged.\<close>

definition is_finite :: "float32 \<Rightarrow> bool" where
  "is_finite x = (case x of Finite q \<Rightarrow> round_f32 q = Finite q | _ \<Rightarrow> False)"

fun fmul :: "float32 \<Rightarrow> float32 \<Rightarrow> float32" where
  "fmul (Finite a) (Finite b) = round_f32 (a * b)"
| "fmul NaN _ = NaN"
| "fmul _ NaN = NaN"
| "fmul (Finite a) PInf = (if a = 0 then NaN else if 0 < a then PInf else NInf)"
| "fmul (Finite a) NInf = (if a = 0 then NaN else if 0 < a then NInf else PInf)"
| "fmul PInf (Finite b) = (if b = 0 then NaN else if 0 < b then PInf else NInf)"
| "fmul NInf (Finite b) = (if b = 0 then NaN else if 0 < b then NInf else PInf)"
| "fmul PInf PInf = PInf"
| "fmul PInf NInf = NInf"
| "fmul NInf PInf = NInf"
| "fmul NInf NInf = PInf"

fun fadd :: "float32 \<Rightarrow> float32 \<Rightarrow> float32" where
  "fadd (Finite a) (Finite b) = round_f32 (a + b)"
| "fadd NaN _ = NaN"
| "fadd _ NaN = NaN"
| "fadd PInf NInf = NaN"
| "fadd NInf PInf = NaN"
| "fadd PInf _ = PInf"
| "fadd NInf _ = NInf"
| "fadd _ PInf = PInf"
| "fadd _ NInf = NInf"

fun fneg :: "float32 \<Rightarrow> float32" where
  "fneg (Finite a) = Finite (- a)"
| "fneg PInf = NInf"
| "fneg NInf = PInf"
| "fneg NaN = NaN"

definition fsub :: "float32 \<Rightarrow> float32 \<Rightarrow> float32" where
  "fsub a b = fadd a (fneg b)"

fun flt :: "float32 \<Rightarrow> float32 \<Rightarrow> bool" where
  "flt (Finite a) (Finite b) = (a < b)"
| "flt NaN _ = False"
| "flt _ NaN = False"
| "flt NInf NInf = False"
| "flt NInf _ = True"
| "flt _ NInf = False"
| "flt PInf _ = False"
| "flt _ PInf = True"

section \<open>Conversions between integers and single precision\<close>

text \<open>
  A conversion from floating point to an integer type truncates toward zero; C leaves
  it undefined when the truncated value does not fit the target type (or the operand is
  not finite), which is a fault of the model. Signed overflow is a fault as well, and so
  is a read outside the table.
\<close>

datatype fault = ConversionOutOfRange | SignedOverflow | TableOutOfBounds

definition trunc :: "rat \<Rightarrow> int" where
  "trunc q = (if 0 \<le> q then \<lfloor>q\<rfloor> else \<lceil>q\<rceil>)"

fun f32_to_int32 :: "float32 \<Rightarrow> fault + int" where
  "f32_to_int32 (Finite q) =
     (if - (2 ^ 31) \<le> trunc q \<and> trunc q < 2 ^ 31 then Inr (trunc q)
      else Inl ConversionOutOfRange)"
| "f32_to_int32 _ = Inl ConversionOutOfRange"

fun f32_to_uint32 :: "float32 \<Rightarrow> fault + int" where
  "f32_to_uint32 (Finite q) =
     (if 0 \<le> trunc q \<and> trunc q < 2 ^ 32 then Inr (trunc q)
      else Inl ConversionOutOfRange)"
| "f32_to_uint32 _ = Inl ConversionOutOfRange"

text \<open>Storing a \<^verbatim>\<open>uint32_t\<close> in an \<^verbatim>\<open>int32_t\<close> keeps the bit pattern.\<close>

definition uint32_to_int32 :: "int \<Rightarrow> int" where
  "uint32_to_int32 u = (if u < 2 ^ 31 then u else u - 2 ^ 32)"

definition int_to_f32 :: "int \<Rightarrow> float32" where
  "int_to_f32 n = round_f32 (of_int n)"

definition int32_sub :: "int \<Rightarrow> int \<Rightarrow> fault + int" where
  "int32_sub a b =
     (if - (2 ^ 31) \<le> a - b \<and> a - b < 2 ^ 31 then Inr (a - b) else Inl SignedOverflow)"

text \<open>A floating constant with suffix \<^verbatim>\<open>f\<close> is the decimal rounded to single precision.\<close>

definition f32_lit :: "rat \<Rightarrow> float32" where
  "f32_lit q = round_f32 q"

section \<open>The sample table\<close>

text \<open>The 259 initialisers of \<^verbatim>\<open>sinTable\<close>, as written in the source.\<close>

definition sinTable_lit :: "rat list" where
  "sinTable_lit = [
    - 0.024541229009628296, 0.000000000000000000, 0.024541229009628296,
    0.049067676067352295, 0.073564566671848297, 0.098017141222953796,
    0.122410677373409270, 0.146730467677116390,
    0.170961886644363400, 0.195090323686599730, 0.219101235270500180,
    0.242980182170867920, 0.266712754964828490, 0.290284663438797000,
    0.313681751489639280, 0.336889863014221190,
    0.359895050525665280, 0.382683426141738890, 0.405241310596466060,
    0.427555084228515630, 0.449611335992813110, 0.471396744251251220,
    0.492898195981979370, 0.514102756977081300,
    0.534997642040252690, 0.555570244789123540, 0.575808167457580570,
    0.595699310302734380, 0.615231573581695560, 0.634393274784088130,
    0.653172850608825680, 0.671558976173400880,
    0.689540565013885500, 0.707106769084930420, 0.724247097969055180,
    0.740951120853424070, 0.757208824157714840, 0.773010432720184330,
    0.788346409797668460, 0.803207516670227050,
    0.817584812641143800, 0.831469595432281490, 0.844853579998016360,
    0.857728600502014160, 0.870086967945098880, 0.881921291351318360,
    0.893224298954010010, 0.903989315032958980,
    0.914209783077239990, 0.923879504203796390, 0.932992815971374510,
    0.941544055938720700, 0.949528157711029050, 0.956940352916717530,
    0.963776051998138430, 0.970031261444091800,
    0.975702106952667240, 0.980785250663757320, 0.985277652740478520,
    0.989176511764526370, 0.992479562759399410, 0.995184719562530520,
    0.997290432453155520, 0.998795449733734130,
    0.999698817729949950, 1.000000000000000000, 0.999698817729949950,
    0.998795449733734130, 0.997290432453155520, 0.995184719562530520,
    0.992479562759399410, 0.989176511764526370,
    0.985277652740478520, 0.980785250663757320, 0.975702106952667240,
    0.970031261444091800, 0.963776051998138430, 0.956940352916717530,
    0.949528157711029050, 0.941544055938720700,
    0.932992815971374510, 0.923879504203796390, 0.914209783077239990,
    0.903989315032958980, 0.893224298954010010, 0.881921291351318360,
    0.870086967945098880, 0.857728600502014160,
    0.844853579998016360, 0.831469595432281490, 0.817584812641143800,
    0.803207516670227050, 0.788346409797668460, 0.773010432720184330,
    0.757208824157714840, 0.740951120853424070,
    0.724247097969055180, 0.707106769084930420, 0.689540565013885500,
    0.671558976173400880, 0.653172850608825680, 0.634393274784088130,
    0.615231573581695560, 0.595699310302734380,
    0.575808167457580570, 0.555570244789123540, 0.534997642040252690,
    0.514102756977081300, 0.492898195981979370, 0.471396744251251220,
    0.449611335992813110, 0.427555084228515630,
    0.405241310596466060, 0.382683426141738890, 0.359895050525665280,
    0.336889863014221190, 0.313681751489639280, 0.290284663438797000,
    0.266712754964828490, 0.242980182170867920,
    0.219101235270500180, 0.195090323686599730, 0.170961886644363400,
    0.146730467677116390, 0.122410677373409270, 0.098017141222953796,
    0.073564566671848297, 0.049067676067352295,
    0.024541229009628296, 0.000000000000000122, - 0.024541229009628296,
    - 0.049067676067352295, - 0.073564566671848297, - 0.098017141222953796,
    - 0.122410677373409270, - 0.146730467677116390,
    - 0.170961886644363400, - 0.195090323686599730, - 0.219101235270500180,
    - 0.242980182170867920, - 0.266712754964828490, - 0.290284663438797000,
    - 0.313681751489639280, - 0.336889863014221190,
    - 0.359895050525665280, - 0.382683426141738890, - 0.405241310596466060,
    - 0.427555084228515630, - 0.449611335992813110, - 0.471396744251251220,
    - 0.492898195981979370, - 0.514102756977081300,
    - 0.534997642040252690, - 0.555570244789123540, - 0.575808167457580570,
    - 0.595699310302734380, - 0.615231573581695560, - 0.634393274784088130,
    - 0.653172850608825680, - 0.671558976173400880,
    - 0.689540565013885500, - 0.707106769084930420, - 0.724247097969055180,
    - 0.740951120853424070, - 0.757208824157714840, - 0.773010432720184330,
    - 0.788346409797668460, - 0.803207516670227050,
    - 0.817584812641143800, - 0.831469595432281490, - 0.844853579998016360,
    - 0.857728600502014160, - 0.870086967945098880, - 0.881921291351318360,
    - 0.893224298954010010, - 0.903989315032958980,
    - 0.914209783077239990, - 0.923879504203796390, - 0.932992815971374510,
    - 0.941544055938720700, - 0.949528157711029050, - 0.956940352916717530,
    - 0.963776051998138430, - 0.970031261444091800,
    - 0.975702106952667240, - 0.980785250663757320, - 0.985277652740478520,
    - 0.989176511764526370, - 0.992479562759399410, - 0.995184719562530520,
    - 0.997290432453155520, - 0.998795449733734130,
    - 0.999698817729949950, - 1.000000000000000000, - 0.999698817729949950,
    - 0.998795449733734130, - 0.997290432453155520, - 0.995184719562530520,
    - 0.992479562759399410, - 0.989176511764526370,
    - 0.985277652740478520, - 0.980785250663757320, - 0.975702106952667240,
    - 0.970031261444091800, - 0.963776051998138430, - 0.956940352916717530,
    - 0.949528157711029050, - 0.941544055938720700,
    - 0.932992815971374510, - 0.923879504203796390, - 0.914209783077239990,
    - 0.903989315032958980, - 0.893224298954010010, - 0.881921291351318360,
    - 0.870086967945098880, - 0.857728600502014160,
    - 0.844853579998016360, - 0.831469595432281490, - 0.817584812641143800,
    - 0.803207516670227050, - 0.788346409797668460, - 0.773010432720184330,
    - 0.757208824157714840, - 0.740951120853424070,
    - 0.724247097969055180, - 0.707106769084930420, - 0.689540565013885500,
    - 0.671558976173400880, - 0.653172850608825680, - 0.634393274784088130,
    - 0.615231573581695560, - 0.595699310302734380,
    - 0.575808167457580570, - 0.555570244789123540, - 0.534997642040252690,
    - 0.514102756977081300, - 0.492898195981979370, - 0.471396744251251220,
    - 0.449611335992813110, - 0.427555084228515630,
    - 0.405241310596466060, - 0.382683426141738890, - 0.359895050525665280,
    - 0.336889863014221190, - 0.313681751489639280, - 0.290284663438797000,
    - 0.266712754964828490, - 0.242980182170867920,
    - 0.219101235270500180, - 0.195090323686599730, - 0.170961886644363400,
    - 0.146730467677116390, - 0.122410677373409270, - 0.098017141222953796,
    - 0.073564566671848297, - 0.049067676067352295,
    - 0.024541229009628296, - 0.000000000000000245, 0.024541229009628296
  ]"

text \<open>Modelled from the spec: the macro \<^verbatim>\<open>TABLE_SIZE\<close> comes from \<^verbatim>\<open>arm_math.h\<close>, which is
  not among the sources; the spec gives \<open>tableSize = 256\<close>, as does the comment above the
  table in the source.\<close>

definition TABLE_SIZE :: int where
  "TABLE_SIZE = 256"

text \<open>Reading \<^verbatim>\<open>sinTable[i]\<close>: defined for \<open>0 \<le> i < 259\<close> only.\<close>

definition sinTable :: "int \<Rightarrow> fault + float32" where
  "sinTable i =
     (if 0 \<le> i \<and> i < 259 then Inr (f32_lit (sinTable_lit ! nat i))
      else Inl TableOutOfBounds)"

section \<open>The routine\<close>

text \<open>
  \<^verbatim>\<open>in = x * 0.159154943092f; n = (int32_t) in; if (x < 0.0f) n = n - 1;
  in = in - (float32_t) n;\<close>
  The source reuses the variable \<^verbatim>\<open>in\<close>; \<open>in0\<close> is its first value and the result is
  its second.
\<close>

definition sin_fold :: "float32 \<Rightarrow> fault + float32" where
  "sin_fold x =
     (let in0 = fmul x (f32_lit 0.159154943092)
      in case f32_to_int32 in0 of
           Inl e \<Rightarrow> Inl e
         | Inr n0 \<Rightarrow>
             (case (if flt x (f32_lit 0.0) then int32_sub n0 1 else Inr n0) of
                Inl e \<Rightarrow> Inl e
              | Inr n \<Rightarrow> Inr (fsub in0 (int_to_f32 n))))"

text \<open>
  \<^verbatim>\<open>index = (uint32_t) (tableSize * in);
  fract = ((float32_t) tableSize * in) - (float32_t) index;
  if (index < 0) index = 0; else if (index > 256) index = 256;\<close>
  The result is the clamped index and the fractional offset.
\<close>

definition sin_index :: "float32 \<Rightarrow> fault + int \<times> float32" where
  "sin_index in1 =
     (let tableSize = TABLE_SIZE
      in case f32_to_uint32 (fmul (int_to_f32 tableSize) in1) of
           Inl e \<Rightarrow> Inl e
         | Inr u \<Rightarrow>
             (let index = uint32_to_int32 u;
                  fract = fsub (fmul (int_to_f32 tableSize) in1) (int_to_f32 index);
                  index = (if index < 0 then 0 else if index > 256 then 256 else index)
              in Inr (index, fract)))"

text \<open>
  \<^verbatim>\<open>tablePtr = (float32_t *) & sinTable[index];
  a = tablePtr[0]; b = tablePtr[1]; c = tablePtr[2]; d = tablePtr[3];\<close>
\<close>

definition sin_fetch :: "int \<Rightarrow> fault + float32 \<times> float32 \<times> float32 \<times> float32" where
  "sin_fetch index =
     (case sinTable (index + 0) of
        Inl e \<Rightarrow> Inl e
      | Inr a \<Rightarrow>
          (case sinTable (index + 1) of
             Inl e \<Rightarrow> Inl e
           | Inr b \<Rightarrow>
               (case sinTable (index + 2) of
                  Inl e \<Rightarrow> Inl e
                | Inr c \<Rightarrow>
                    (case sinTable (index + 3) of
                       Inl e \<Rightarrow> Inl e
                     | Inr d \<Rightarrow> Inr (a, b, c, d)))))"

text \<open>
  The cubic interpolation coefficients, in the order of the source's assignments
  (\<^verbatim>\<open>wb\<close> and \<^verbatim>\<open>wc\<close> are assigned twice or three times). The arithmetic and the four
  constants are parameters, so that the same sequence can be read in single precision,
  as the routine runs it, and in exact arithmetic.
\<close>

definition cubic_weights ::
  "('a \<Rightarrow> 'a \<Rightarrow> 'a) \<Rightarrow> ('a \<Rightarrow> 'a \<Rightarrow> 'a) \<Rightarrow> ('a \<Rightarrow> 'a \<Rightarrow> 'a) \<Rightarrow> 'a \<Rightarrow> 'a \<Rightarrow> 'a \<Rightarrow> 'a \<Rightarrow> 'a
     \<Rightarrow> 'a \<times> 'a \<times> 'a \<times> 'a" where
  "cubic_weights mul add sub one half sixth third fract =
     (let fractsq = mul fract fract;
          fractby2 = mul fract half;
          fractby6 = mul fract sixth;
          fractby3 = mul fract third;
          fractsqby2 = mul fractsq half;
          frby2xfrsq = mul fractby2 fractsq;
          frby6xfrsq = mul fractby6 fractsq;
          oneminusfractby2 = sub one fractby2;
          wb = sub fractsqby2 fractby3;
          wc = add fractsqby2 fract;
          wa = sub wb frby6xfrsq;
          wb = sub frby2xfrsq fractsq;
          wc = sub wc frby2xfrsq;
          wd = sub frby6xfrsq fractby6;
          wb = add wb oneminusfractby2
      in (wa, wb, wc, wd))"

definition sin_weights :: "float32 \<Rightarrow> float32 \<times> float32 \<times> float32 \<times> float32" where
  "sin_weights fract =
     cubic_weights fmul fadd fsub (f32_lit 1.0) (f32_lit 0.5) (f32_lit 0.166666667)
       (f32_lit 0.3333333333333) fract"

text \<open>\<^verbatim>\<open>sinVal = wa * a; sinVal = (sinVal + (b * wb)) + ((c * wc) + (d * wd));\<close>\<close>

definition arm_sin_f32 :: "float32 \<Rightarrow> fault + float32" where
  "arm_sin_f32 x =
     (case sin_fold x of
        Inl e \<Rightarrow> Inl e
      | Inr in1 \<Rightarrow>
          (case sin_index in1 of
             Inl e \<Rightarrow> Inl e
           | Inr (index, fract) \<Rightarrow>
               (case sin_fetch index of
                  Inl e \<Rightarrow> Inl e
                | Inr (a, b, c, d) \<Rightarrow>
                    (case sin_weights fract of
                       (wa, wb, wc, wd) \<Rightarrow>
                         (let sinVal = fmul wa a
                          in Inr (fadd (fadd sinVal (fmul b wb))
                                       (fadd (fmul c wc) (fmul d wd))))))))"


section \<open>Dyadic numbers\<close>

text \<open>
  Every finite single-precision value is an integer multiple of a power of two. On such
  numbers rounding needs integer arithmetic only: \<open>round_dy m e\<close> rounds \<open>m * 2\<^sup>e\<close> by
  shifting the integer \<open>m\<close>. It is proved equal to \<open>round_f32\<close> below and serves to
  evaluate the routine at concrete inputs.
\<close>

definition dy :: "int \<Rightarrow> int \<Rightarrow> rat" where
  "dy m e = of_int m * 2 powi e"

definition round_shift :: "int \<Rightarrow> nat \<Rightarrow> int" where
  "round_shift m s =
     (let a = \<bar>m\<bar>; f = drop_bit s a; r = take_bit s a; h = 2 ^ (s - 1)
      in sgn m * (if r < h then f else if h < r then f + 1
                  else if even f then f else f + 1))"

definition round_dy :: "int \<Rightarrow> int \<Rightarrow> float32" where
  "round_dy m e =
     (if m = 0 then Finite (dy 0 0)
      else let s = max (bitlen \<bar>m\<bar> - 24) (- 149 - e)
           in if s \<le> 0 then Finite (dy m e)
              else Finite (dy (round_shift m (nat s)) (e + s)))"

section \<open>Notions used by the properties\<close>

text \<open>\<open>returns_near res v tol\<close>: the call returned a finite value at most \<open>tol\<close> away from \<open>v\<close>.\<close>

definition returns_near :: "fault + float32 \<Rightarrow> rat \<Rightarrow> rat \<Rightarrow> bool" where
  "returns_near res v tol = (case res of Inr (Finite r) \<Rightarrow> \<bar>r - v\<bar> \<le> tol | _ \<Rightarrow> False)"

text \<open>The four cubic blending weights as the specification writes them, on exact numbers.\<close>

definition spec_weights :: "rat \<Rightarrow> rat \<times> rat \<times> rat \<times> rat" where
  "spec_weights fract =
     (- (1 / 6) * fract ^ 3 + (1 / 2) * fract ^ 2 - (1 / 3) * fract,
      (1 / 2) * fract ^ 3 - fract ^ 2 - (1 / 2) * fract + 1,
      - (1 / 2) * fract ^ 3 + (1 / 2) * fract ^ 2 + fract,
      (1 / 6) * fract ^ 3 - (1 / 6) * fract)"

section \<open>Notions used by the accuracy proof\<close>

text \<open>The Maclaurin polynomial of degree 13 of the sine, in Horner form.\<close>

definition sin_poly :: "'a::field \<Rightarrow> 'a" where
  "sin_poly y =
     (let z = y * y
      in y * (1 - z / 6 * (1 - z / 20 * (1 - z / 42 * (1 - z / 72 * (1 - z / 110 * (1 - z / 156)))))))"

text \<open>\<open>all_from P j xs\<close>: every element of \<open>xs\<close> satisfies \<open>P\<close> together with its position,
  counted from \<open>j\<close>.\<close>

fun all_from :: "(int \<Rightarrow> 'a \<Rightarrow> bool) \<Rightarrow> int \<Rightarrow> 'a list \<Rightarrow> bool" where
  "all_from P j [] = True"
| "all_from P j (x # xs) = (P j x \<and> all_from P (j + 1) xs)"

text \<open>The Taylor polynomial of degree three of the sine at \<open>t\<close>, with \<open>p = sin t\<close> and
  \<open>c = cos t\<close>.\<close>

definition taylor3 :: "real \<Rightarrow> real \<Rightarrow> real \<Rightarrow> real" where
  "taylor3 p c d = p + d * c - d ^ 2 / 2 * p - d ^ 3 / 6 * c"

section \<open>Properties of rounding\<close>

subsection \<open>Powers of two and the binary logarithm\<close>

lemma two_powi_le_iff: "(2::rat) powi a \<le> 2 powi b \<longleftrightarrow> a \<le> b"
proof
  assume "(2::rat) powi a \<le> 2 powi b"
  show "a \<le> b"
  proof (rule ccontr)
    assume "\<not> a \<le> b"
    then have "(2::rat) powi b < 2 powi a"
      by (intro power_int_strict_increasing) simp_all
    with \<open>(2::rat) powi a \<le> 2 powi b\<close> show False by simp
  qed
next
  assume "a \<le> b"
  then show "(2::rat) powi a \<le> 2 powi b"
    by (intro power_int_increasing) simp_all
qed

lemma two_powi_less_iff: "(2::rat) powi a < 2 powi b \<longleftrightarrow> a < b"
  using two_powi_le_iff [of b a] by (simp add: not_le [symmetric])

lemma two_powi_pos: "0 < (2::rat) powi k"
  by simp

lemma two_powi_add: "(2::rat) powi (a + b) = 2 powi a * 2 powi b"
  by (simp add: power_int_add)

lemma two_powi_diff: "(2::rat) powi (a - b) = 2 powi a / 2 powi b"
  by (simp add: power_int_diff)

lemma two_powi_nat: "0 \<le> k \<Longrightarrow> (2::rat) powi k = of_int (2 ^ nat k)"
  by (simp add: power_int_nonneg_exp)

lemma ilog2_lower:
  assumes "0 < q"
  shows "2 powi (ilog2 q) \<le> q"
proof (cases "1 \<le> q")
  case True
  define n where "n = \<lfloor>q\<rfloor>"
  have n: "0 < n" using True by (simp add: n_def)
  have b: "1 \<le> bitlen n" using n by (simp add: bitlen_alt_def)
  have "(2::rat) powi (bitlen n - 1) = 2 ^ nat (bitlen n - 1)"
    using b by (simp add: power_int_nonneg_exp)
  also have "\<dots> = of_int (2 ^ nat (bitlen n - 1))" by simp
  also have "\<dots> \<le> of_int n"
    using bitlen_bounds [OF n] by (simp only: of_int_le_iff)
  also have "\<dots> \<le> q" by (simp add: n_def)
  finally show ?thesis using True by (simp add: ilog2_def n_def)
next
  case False
  define N where "N = \<lceil>1 / q\<rceil>"
  have "1 < 1 / q" using False assms by simp
  then have N: "0 < N - 1" by (simp add: N_def less_ceiling_iff)
  have b: "0 \<le> bitlen (N - 1)" by (rule bitlen_nonneg)
  have "1 / q \<le> of_int N" by (simp add: N_def)
  also have "of_int N \<le> (of_int (2 ^ nat (bitlen (N - 1))) :: rat)"
    using bitlen_bounds [OF N] by (simp only: of_int_le_iff) simp
  finally have "1 / q \<le> 2 ^ nat (bitlen (N - 1))" by simp
  then have "1 / 2 ^ nat (bitlen (N - 1)) \<le> q"
    using assms by (simp add: field_simps)
  moreover have "(2::rat) powi (- bitlen (N - 1)) = 1 / 2 ^ nat (bitlen (N - 1))"
    using b by (simp add: power_int_minus_divide power_int_nonneg_exp)
  ultimately show ?thesis using False by (simp add: ilog2_def N_def)
qed

lemma ilog2_upper:
  assumes "0 < q"
  shows "q < 2 powi (ilog2 q + 1)"
proof (cases "1 \<le> q")
  case True
  define n where "n = \<lfloor>q\<rfloor>"
  have n: "0 < n" using True by (simp add: n_def)
  have b: "0 \<le> bitlen n" by (rule bitlen_nonneg)
  have "q < of_int (n + 1)" unfolding n_def by linarith
  also have "\<dots> \<le> (of_int (2 ^ nat (bitlen n)) :: rat)"
    using bitlen_bounds [OF n] by (simp only: of_int_le_iff) simp
  also have "\<dots> = 2 powi (bitlen n)" using b by (simp add: power_int_nonneg_exp)
  finally show ?thesis using True by (simp add: ilog2_def n_def)
next
  case False
  define N where "N = \<lceil>1 / q\<rceil>"
  have "1 < 1 / q" using False assms by simp
  then have N: "0 < N - 1" by (simp add: N_def less_ceiling_iff)
  have b: "1 \<le> bitlen (N - 1)" using N by (simp add: bitlen_alt_def)
  have "(of_int (2 ^ nat (bitlen (N - 1) - 1)) :: rat) \<le> of_int (N - 1)"
    using bitlen_bounds [OF N] by (simp only: of_int_le_iff)
  also have "\<dots> < 1 / q" unfolding N_def by linarith
  finally have "2 ^ nat (bitlen (N - 1) - 1) < 1 / q" by simp
  then have "q < 1 / 2 ^ nat (bitlen (N - 1) - 1)"
    using assms by (simp add: field_simps)
  moreover have "(2::rat) powi (- bitlen (N - 1) + 1) = 1 / 2 ^ nat (bitlen (N - 1) - 1)"
  proof -
    have "(2::rat) powi (- bitlen (N - 1) + 1) = 2 powi (- (bitlen (N - 1) - 1))" by simp
    also have "\<dots> = 1 / 2 powi (bitlen (N - 1) - 1)" by (rule power_int_minus_divide)
    also have "\<dots> = 1 / 2 ^ nat (bitlen (N - 1) - 1)"
      using b by (simp add: power_int_nonneg_exp)
    finally show ?thesis .
  qed
  ultimately show ?thesis using False by (simp add: ilog2_def N_def)
qed

lemma ilog2_unique:
  assumes "2 powi k \<le> q" and "q < 2 powi (k + 1)"
  shows "ilog2 q = k"
proof -
  have q: "0 < q" using assms(1) by (rule less_le_trans [rotated]) simp
  have "(2::rat) powi (ilog2 q) < 2 powi (k + 1)"
    using ilog2_lower [OF q] assms(2) by simp
  then have 1: "ilog2 q < k + 1" by (simp only: two_powi_less_iff)
  have "(2::rat) powi k < 2 powi (ilog2 q + 1)"
    using ilog2_upper [OF q] assms(1) by simp
  then have 2: "k < ilog2 q + 1" by (simp only: two_powi_less_iff)
  from 1 2 show ?thesis by simp
qed

subsection \<open>Rounding to the nearest integer\<close>

lemma round_half_even_of_int: "round_half_even (of_int n) = n"
  by (simp add: round_half_even_def)

lemma round_half_even_error: "\<bar>of_int (round_half_even q) - q\<bar> \<le> 1 / 2"
proof -
  have "of_int \<lfloor>q\<rfloor> \<le> q" "q < of_int \<lfloor>q\<rfloor> + 1" by linarith+
  then show ?thesis
    by (auto simp: round_half_even_def Let_def abs_le_iff)
qed

lemma round_half_even_le:
  assumes "q \<le> of_int n"
  shows "round_half_even q \<le> n"
proof -
  have "\<lfloor>q\<rfloor> \<le> n" using assms by (simp add: floor_le_iff)
  then consider "\<lfloor>q\<rfloor> = n" | "\<lfloor>q\<rfloor> + 1 \<le> n" by linarith
  then show ?thesis
  proof cases
    case 1
    then have "q = of_int n" using assms by (metis floor_le_iff of_int_floor_le order_antisym)
    then show ?thesis by (simp add: round_half_even_of_int)
  next
    case 2
    then show ?thesis by (auto simp: round_half_even_def Let_def)
  qed
qed

lemma round_half_even_ge:
  assumes "of_int n \<le> q"
  shows "n \<le> round_half_even q"
proof -
  have "n \<le> \<lfloor>q\<rfloor>" using assms by (simp add: le_floor_iff)
  then show ?thesis by (auto simp: round_half_even_def Let_def)
qed

lemma round_half_even_nearest:
  assumes "\<bar>q - of_int m\<bar> < 1 / 2"
  shows "round_half_even q = m"
proof -
  have "\<bar>of_int (round_half_even q) - (of_int m :: rat)\<bar> < 1"
    using round_half_even_error [of q] assms by linarith
  then have "\<bar>(of_int (round_half_even q - m) :: rat)\<bar> < 1" by simp
  then have "\<bar>round_half_even q - m\<bar> < 1"
    by (metis of_int_abs of_int_less_1_iff)
  then show ?thesis by simp
qed

lemma round_half_even_minus: "round_half_even (- q) = - round_half_even q"
proof (cases "q \<in> \<int>")
  case True
  then obtain n where "q = of_int n" by (auto elim: Ints_cases)
  then show ?thesis
    by (metis of_int_minus round_half_even_of_int)
next
  case False
  then have "q \<noteq> of_int \<lfloor>q\<rfloor>" by (metis Ints_of_int)
  then have f: "\<lfloor>- q\<rfloor> = - \<lfloor>q\<rfloor> - 1"
    by (simp add: ceiling_altdef ceiling_def [symmetric] floor_minus)
  have "of_int \<lfloor>q\<rfloor> \<le> q" "q < of_int \<lfloor>q\<rfloor> + 1" by linarith+
  then show ?thesis
    unfolding round_half_even_def Let_def f
    by (auto simp: algebra_simps)
qed

lemma round_half_even_abs_le:
  assumes "\<bar>q\<bar> \<le> of_int n"
  shows "\<bar>round_half_even q\<bar> \<le> n"
proof -
  have "q \<le> of_int n" "of_int (- n) \<le> q" using assms by (auto simp: abs_le_iff)
  then have "round_half_even q \<le> n" "- n \<le> round_half_even q"
    by (auto intro: round_half_even_le round_half_even_ge)
  then show ?thesis by simp
qed

subsection \<open>Rounding to a multiple of a power of two\<close>

lemma quantize_error: "\<bar>quantize e q - q\<bar> \<le> 2 powi e / 2"
proof -
  have "quantize e q - q = (of_int (round_half_even (q / 2 powi e)) - q / 2 powi e) * 2 powi e"
    by (simp add: quantize_def algebra_simps)
  then have "\<bar>quantize e q - q\<bar> = \<bar>of_int (round_half_even (q / 2 powi e)) - q / 2 powi e\<bar> * 2 powi e"
    by (simp add: abs_mult)
  also have "\<dots> \<le> 1 / 2 * 2 powi e"
    by (intro mult_right_mono round_half_even_error) simp
  finally show ?thesis by simp
qed

lemma quantize_exact: "quantize e (of_int n * 2 powi e) = of_int n * 2 powi e"
  by (simp add: quantize_def round_half_even_of_int)

lemma quantize_minus: "quantize e (- q) = - quantize e q"
  by (simp add: quantize_def round_half_even_minus)

lemma quantize_le:
  assumes "q \<le> of_int n * 2 powi e"
  shows "quantize e q \<le> of_int n * 2 powi e"
proof -
  have "q / 2 powi e \<le> of_int n" using assms by (simp add: field_simps)
  then have "round_half_even (q / 2 powi e) \<le> n" by (rule round_half_even_le)
  then have "(of_int (round_half_even (q / 2 powi e)) :: rat) \<le> of_int n" by simp
  then show ?thesis unfolding quantize_def by (intro mult_right_mono) simp_all
qed

lemma quantize_ge:
  assumes "of_int n * 2 powi e \<le> q"
  shows "of_int n * 2 powi e \<le> quantize e q"
  using quantize_le [of "- q" "- n" e] assms by (simp add: quantize_minus)

lemma quantize_nonneg: "0 \<le> q \<Longrightarrow> 0 \<le> quantize e q"
  using quantize_ge [of 0 e q] by simp

lemma quantize_nonpos: "q \<le> 0 \<Longrightarrow> quantize e q \<le> 0"
  using quantize_le [of q 0 e] by simp

lemma quantize_abs_le:
  assumes "\<bar>q\<bar> \<le> of_int n * 2 powi e"
  shows "\<bar>quantize e q\<bar> \<le> of_int n * 2 powi e"
proof -
  have 1: "q \<le> of_int n * 2 powi e" and 2: "of_int (- n) * 2 powi e \<le> q"
    using assms by (auto simp: abs_le_iff)
  have "quantize e q \<le> of_int n * 2 powi e" using 1 by (rule quantize_le)
  moreover have "of_int (- n) * 2 powi e \<le> quantize e q" using 2 by (rule quantize_ge)
  ultimately show ?thesis by (simp add: abs_le_iff)
qed

subsection \<open>The exponent of the rounding grid\<close>

lemma ilog2_le:
  assumes "0 < q" and "q \<le> 2 powi k"
  shows "ilog2 q \<le> k"
proof -
  have "(2::rat) powi (ilog2 q) \<le> 2 powi k"
    using ilog2_lower [OF assms(1)] assms(2) by simp
  then show ?thesis by (simp only: two_powi_le_iff)
qed

lemma ilog2_less:
  assumes "0 < q" and "q < 2 powi k"
  shows "ilog2 q < k"
proof -
  have "(2::rat) powi (ilog2 q) < 2 powi k"
    using ilog2_lower [OF assms(1)] assms(2) by simp
  then show ?thesis by (simp only: two_powi_less_iff)
qed

lemma ilog2_ge:
  assumes "2 powi k \<le> q"
  shows "k \<le> ilog2 q"
proof -
  have q: "0 < q" using assms by (rule less_le_trans [rotated]) simp
  have "(2::rat) powi k < 2 powi (ilog2 q + 1)"
    using ilog2_upper [OF q] assms by simp
  then show ?thesis by (simp only: two_powi_less_iff)
qed

lemma f32_exp_ge: "- 149 \<le> f32_exp q"
  by (simp add: f32_exp_def)

lemma f32_exp_eq:
  assumes "2 powi k \<le> \<bar>q\<bar>" and "\<bar>q\<bar> < 2 powi (k + 1)"
  shows "f32_exp q = max (k - 23) (- 149)"
  using ilog2_unique [OF assms] by (simp add: f32_exp_def)

lemma round_f32_finite:
  assumes "q \<noteq> 0" and "\<bar>quantize (f32_exp q) q\<bar> < 2 ^ 128"
  shows "round_f32 q = Finite (quantize (f32_exp q) q)"
  using assms by (auto simp: round_f32_def Let_def abs_less_iff)

lemma quantize_f32_exp_abs_le:
  assumes "q \<noteq> 0" and "\<bar>q\<bar> \<le> 2 powi k" and "- 149 \<le> k"
  shows "\<bar>quantize (f32_exp q) q\<bar> \<le> 2 powi k"
proof -
  define e where "e = f32_exp q"
  have "ilog2 \<bar>q\<bar> \<le> k" using assms(1,2) by (intro ilog2_le) simp_all
  then have ek: "e \<le> k" using assms(3) by (simp add: e_def f32_exp_def)
  have "(2::rat) powi k = 2 powi (k - e) * 2 powi e"
    by (simp add: power_int_add [symmetric])
  also have "(2::rat) powi (k - e) = of_int (2 ^ nat (k - e))"
    using ek by (intro two_powi_nat) simp
  finally have k: "(2::rat) powi k = of_int (2 ^ nat (k - e)) * 2 powi e" .
  show ?thesis
    unfolding e_def [symmetric] k by (rule quantize_abs_le) (use assms(2) k in simp)
qed

lemma round_f32_eq:
  assumes "q \<noteq> 0" and "\<bar>q\<bar> \<le> 2 powi k" and "- 149 \<le> k" and "k \<le> 127"
  shows "round_f32 q = Finite (quantize (f32_exp q) q)"
proof -
  have "\<bar>quantize (f32_exp q) q\<bar> \<le> 2 powi k"
    using assms(1-3) by (rule quantize_f32_exp_abs_le)
  moreover have "(2::rat) powi k \<le> 2 powi 127"
    using assms(4) by (simp only: two_powi_le_iff)
  ultimately have "\<bar>quantize (f32_exp q) q\<bar> < 2 ^ 128" by simp
  with assms(1) show ?thesis by (rule round_f32_finite)
qed

lemma round_f32_bounded:
  assumes "\<bar>q\<bar> \<le> 2 powi k" and "- 149 \<le> k" and "k \<le> 127"
  obtains r where "round_f32 q = Finite r" and "\<bar>r\<bar> \<le> 2 powi k"
    and "\<bar>r - q\<bar> \<le> 2 powi (f32_exp q) / 2"
    and "0 \<le> q \<Longrightarrow> 0 \<le> r" and "q \<le> 0 \<Longrightarrow> r \<le> 0"
proof (cases "q = 0")
  case True
  show ?thesis by (rule that [of 0]) (simp_all add: True round_f32_def)
next
  case False
  define r where "r = quantize (f32_exp q) q"
  have "round_f32 q = Finite r"
    unfolding r_def using False assms by (rule round_f32_eq)
  moreover have "\<bar>r\<bar> \<le> 2 powi k"
    unfolding r_def using False assms(1,2) by (rule quantize_f32_exp_abs_le)
  moreover have "\<bar>r - q\<bar> \<le> 2 powi (f32_exp q) / 2"
    unfolding r_def by (rule quantize_error)
  moreover have "0 \<le> q \<Longrightarrow> 0 \<le> r" unfolding r_def by (rule quantize_nonneg)
  moreover have "q \<le> 0 \<Longrightarrow> r \<le> 0" unfolding r_def by (rule quantize_nonpos)
  ultimately show ?thesis by (intro that [of r])
qed

subsection \<open>Rounding a dyadic number with integer arithmetic\<close>

lemma dy_0: "dy 0 e = 0"
  by (simp add: dy_def)

lemma dy_eq_0_iff: "dy m e = 0 \<longleftrightarrow> m = 0"
  by (simp add: dy_def)

lemma abs_dy: "\<bar>dy m e\<bar> = dy \<bar>m\<bar> e"
  by (simp add: dy_def abs_mult)

lemma dy_shift: "0 \<le> k \<Longrightarrow> dy m e = dy (m * 2 ^ nat k) (e - k)"
  by (simp add: dy_def power_int_diff power_int_nonneg_exp)

lemma ilog2_dy:
  assumes "m \<noteq> 0"
  shows "ilog2 \<bar>dy m e\<bar> = bitlen \<bar>m\<bar> - 1 + e"
proof (rule ilog2_unique)
  define a where "a = \<bar>m\<bar>"
  have a: "0 < a" using assms by (simp add: a_def)
  have b: "1 \<le> bitlen a" using a by (simp add: bitlen_alt_def)
  note bb = bitlen_bounds [OF a]
  have ad: "\<bar>dy m e\<bar> = of_int a * 2 powi e"
    by (simp add: dy_def abs_mult a_def)
  have "(2::rat) powi (bitlen a - 1 + e) = 2 powi (bitlen a - 1) * 2 powi e"
    by (simp add: power_int_add)
  also have "(2::rat) powi (bitlen a - 1) = of_int (2 ^ nat (bitlen a - 1))"
    using b by (intro two_powi_nat) simp
  also have "of_int (2 ^ nat (bitlen a - 1)) * 2 powi e \<le> of_int a * (2::rat) powi e"
    using bb by (intro mult_right_mono) (simp_all only: of_int_le_iff, simp_all)
  finally show "2 powi (bitlen \<bar>m\<bar> - 1 + e) \<le> \<bar>dy m e\<bar>"
    by (simp only: ad a_def)
  have "of_int a * (2::rat) powi e < of_int (2 ^ nat (bitlen a)) * 2 powi e"
    using bb by (intro mult_strict_right_mono) (simp_all only: of_int_less_iff, simp_all)
  also have "(of_int (2 ^ nat (bitlen a)) :: rat) = 2 powi (bitlen a)"
    using b by (intro two_powi_nat [symmetric]) simp
  also have "(2::rat) powi (bitlen a) * 2 powi e = 2 powi (bitlen a - 1 + e + 1)"
    by (simp add: power_int_add [symmetric])
  finally show "\<bar>dy m e\<bar> < 2 powi (bitlen \<bar>m\<bar> - 1 + e + 1)"
    by (simp only: ad a_def)
qed

lemma f32_exp_dy:
  assumes "m \<noteq> 0"
  shows "f32_exp (dy m e) = e + max (bitlen \<bar>m\<bar> - 24) (- 149 - e)"
  by (simp add: f32_exp_def ilog2_dy [OF assms])

lemma round_shift_nonneg:
  assumes "0 \<le> a" and "0 < s"
  shows "round_half_even (of_int a / 2 ^ s) = round_shift a s"
proof -
  define f where "f = a div 2 ^ s"
  define r where "r = a mod 2 ^ s"
  have fl: "\<lfloor>(of_int a :: rat) / 2 ^ s\<rfloor> = f"
    using floor_divide_of_int_eq [of a "2 ^ s", where ?'a = rat] by (simp add: f_def)
  have a: "a = f * 2 ^ s + r" unfolding f_def r_def by (rule div_mult_mod_eq [symmetric])
  have d: "(of_int a :: rat) / 2 ^ s - of_int f = of_int r / 2 ^ s"
    by (subst a) (simp add: field_simps)
  have h: "(2::int) ^ s = 2 * 2 ^ (s - 1)"
    using assms(2) by (cases s) simp_all
  have lt: "(of_int r :: rat) / 2 ^ s < 1 / 2 \<longleftrightarrow> r < 2 ^ (s - 1)"
  proof -
    have "(of_int r :: rat) / 2 ^ s < 1 / 2 \<longleftrightarrow> (of_int (2 * r) :: rat) < of_int (2 ^ s)"
      by (simp add: field_simps)
    also have "\<dots> \<longleftrightarrow> 2 * r < 2 ^ s" by (simp only: of_int_less_iff)
    also have "\<dots> \<longleftrightarrow> r < 2 ^ (s - 1)" by (subst h) simp
    finally show ?thesis .
  qed
  have gt: "1 / 2 < (of_int r :: rat) / 2 ^ s \<longleftrightarrow> 2 ^ (s - 1) < r"
  proof -
    have "1 / 2 < (of_int r :: rat) / 2 ^ s \<longleftrightarrow> (of_int (2 ^ s) :: rat) < of_int (2 * r)"
      by (simp add: field_simps)
    also have "\<dots> \<longleftrightarrow> 2 ^ s < 2 * r" by (simp only: of_int_less_iff)
    also have "\<dots> \<longleftrightarrow> 2 ^ (s - 1) < r" by (subst h) simp
    finally show ?thesis .
  qed
  have sg: "sgn a * x = x" if "x = 0 \<or> a \<noteq> 0" for x :: int
    using that assms(1) by (auto simp: sgn_if)
  have z: "a = 0 \<Longrightarrow> f = 0 \<and> r = 0" by (simp add: f_def r_def)
  show ?thesis
    unfolding round_half_even_def round_shift_def Let_def fl d lt gt
    using assms(1) z
    by (cases "a = 0")
      (simp_all add: drop_bit_eq_div take_bit_eq_mod f_def [symmetric] r_def [symmetric] sgn_if)
qed

lemma round_shift_minus: "round_shift (- m) s = - round_shift m s"
  by (simp add: round_shift_def Let_def sgn_minus)

lemma round_shift_correct:
  assumes "0 < s"
  shows "round_half_even (of_int m / 2 ^ s) = round_shift m s"
proof (cases "0 \<le> m")
  case True
  then show ?thesis using assms by (rule round_shift_nonneg)
next
  case False
  then have "0 \<le> - m" by simp
  then have "round_half_even (of_int (- m) / 2 ^ s) = round_shift (- m) s"
    using assms by (rule round_shift_nonneg)
  then show ?thesis
    using round_half_even_minus [of "of_int m / 2 ^ s"] by (simp add: round_shift_minus)
qed

lemma quantize_dy_exact:
  assumes "s \<le> 0"
  shows "quantize (e + s) (dy m e) = dy m e"
proof -
  have "dy m e = of_int (m * 2 ^ nat (- s)) * 2 powi (e + s)"
    using dy_shift [of "- s" m e] assms by (simp add: dy_def)
  then show ?thesis by (metis quantize_exact)
qed

lemma quantize_dy_shift:
  assumes "0 < s"
  shows "quantize (e + s) (dy m e) = dy (round_shift m (nat s)) (e + s)"
proof -
  have "dy m e / 2 powi (e + s) = of_int m / 2 powi s"
    by (simp add: dy_def power_int_add)
  also have "\<dots> = of_int m / 2 ^ nat s"
    using assms by (simp add: power_int_nonneg_exp)
  finally show ?thesis
    using assms by (simp add: quantize_def dy_def round_shift_correct)
qed

lemma round_f32_dy:
  assumes "bitlen \<bar>m\<bar> + e \<le> 127"
  shows "round_f32 (dy m e) = round_dy m e"
proof (cases "m = 0")
  case True
  then show ?thesis by (simp add: round_dy_def round_f32_def dy_0)
next
  case False
  define k where "k = max (bitlen \<bar>m\<bar> + e) (- 149)"
  define s where "s = max (bitlen \<bar>m\<bar> - 24) (- 149 - e)"
  have "\<bar>dy m e\<bar> < 2 powi (ilog2 \<bar>dy m e\<bar> + 1)"
    using False by (intro ilog2_upper) (simp add: dy_eq_0_iff)
  also have "\<dots> \<le> 2 powi k"
    by (simp only: two_powi_le_iff ilog2_dy [OF False]) (simp add: k_def)
  finally have "\<bar>dy m e\<bar> \<le> 2 powi k" by simp
  moreover have "- 149 \<le> k" "k \<le> 127" using assms by (simp_all add: k_def)
  ultimately have "round_f32 (dy m e) = Finite (quantize (f32_exp (dy m e)) (dy m e))"
    using False by (intro round_f32_eq [where k = k]) (simp_all add: dy_eq_0_iff)
  then have r: "round_f32 (dy m e) = Finite (quantize (e + s) (dy m e))"
    using False by (simp add: f32_exp_dy s_def)
  show ?thesis
  proof (cases "s \<le> 0")
    case True
    then show ?thesis
      using False r by (simp add: round_dy_def Let_def s_def [symmetric] quantize_dy_exact)
  next
    case False
    then show ?thesis
      using \<open>m \<noteq> 0\<close> r
      by (simp add: round_dy_def Let_def s_def [symmetric] quantize_dy_shift)
  qed
qed

lemma round_f32_nearest:
  assumes "2 powi (e + 23) \<le> \<bar>q\<bar>" and "\<bar>q\<bar> < 2 powi (e + 24)"
    and "- 149 \<le> e" and "e \<le> 103" and "\<bar>q - dy m e\<bar> < 2 powi e / 2"
  shows "round_f32 q = Finite (dy m e)"
proof -
  have p: "0 < (2::rat) powi (e + 23)" by simp
  have q: "q \<noteq> 0"
  proof
    assume "q = 0"
    then have "\<bar>q\<bar> = 0" by simp
    with assms(1) p show False by linarith
  qed
  have "f32_exp q = max (e + 23 - 23) (- 149)"
    using assms(1,2) by (intro f32_exp_eq) (simp_all add: add.commute add.left_commute)
  then have fe: "f32_exp q = e" using assms(3) by simp
  have "q / 2 powi e - of_int m = (q - dy m e) / 2 powi e"
    by (simp add: dy_def diff_divide_distrib)
  then have "\<bar>q / 2 powi e - of_int m\<bar> = \<bar>q - dy m e\<bar> / 2 powi e"
    by simp
  also have "\<dots> < 1 / 2" using assms(5) by (simp add: field_simps)
  finally have "round_half_even (q / 2 powi e) = m" by (rule round_half_even_nearest)
  then have "quantize e q = dy m e" by (simp add: quantize_def dy_def)
  moreover have "round_f32 q = Finite (quantize (f32_exp q) q)"
    using q assms(2,3,4) by (intro round_f32_eq [where k = "e + 24"]) simp_all
  ultimately show ?thesis by (simp add: fe)
qed

subsection \<open>Rounding is idempotent\<close>

lemma quantize_grid:
  assumes "e' \<le> e"
  shows "quantize e' (dy m e) = dy m e"
  using quantize_dy_exact [of "e' - e" e m] assms by simp

lemma f32_exp_dy_le:
  assumes "m \<noteq> 0" and "\<bar>m\<bar> < 2 ^ 24" and "- 149 \<le> e"
  shows "f32_exp (dy m e) \<le> e"
proof -
  have "bitlen \<bar>m\<bar> \<le> 24" using assms(2) by (simp add: bitlen_le_iff_power)
  then show ?thesis using assms(3) by (simp add: f32_exp_dy [OF assms(1)])
qed

lemma round_f32_exact:
  assumes "\<bar>m\<bar> < 2 ^ 24" and "- 149 \<le> e" and "\<bar>dy m e\<bar> < 2 ^ 128"
  shows "round_f32 (dy m e) = Finite (dy m e)"
proof (cases "m = 0")
  case True
  then show ?thesis by (simp add: round_f32_def dy_0)
next
  case False
  have "quantize (f32_exp (dy m e)) (dy m e) = dy m e"
    using False assms(1,2) by (intro quantize_grid f32_exp_dy_le)
  moreover have "dy m e \<noteq> 0" using False by (simp add: dy_eq_0_iff)
  ultimately show ?thesis using assms(3) round_f32_finite [of "dy m e"] by simp
qed

lemma round_half_even_abs_less:
  assumes "\<bar>q\<bar> < of_int n"
  shows "\<bar>round_half_even q\<bar> \<le> n"
  using assms by (intro round_half_even_abs_le) simp

lemma round_f32_representable:
  assumes "round_f32 q = Finite r"
  obtains m e where "r = dy m e" and "\<bar>m\<bar> < 2 ^ 24" and "- 149 \<le> e" and "\<bar>r\<bar> < 2 ^ 128"
proof (cases "q = 0")
  case True
  then have "r = dy 0 0" using assms by (simp add: round_f32_def dy_0)
  then show ?thesis by (intro that [of 0 0]) (simp_all add: dy_0)
next
  case False
  define e where "e = f32_exp q"
  define m where "m = round_half_even (q / 2 powi e)"
  have r: "r = dy m e" and fin: "\<bar>r\<bar> < 2 ^ 128"
    using assms False
    by (auto simp: round_f32_def Let_def quantize_def dy_def e_def m_def abs_less_iff
        split: if_splits)
  have e: "- 149 \<le> e" by (simp add: e_def f32_exp_ge)
  have "\<bar>q\<bar> < 2 powi (ilog2 \<bar>q\<bar> + 1)" using False by (intro ilog2_upper) simp
  also have "\<dots> \<le> 2 powi (e + 24)"
    by (simp only: two_powi_le_iff) (simp add: e_def f32_exp_def)
  also have "\<dots> = 2 ^ 24 * 2 powi e" by (simp add: power_int_add)
  finally have "\<bar>q / 2 powi e\<bar> < of_int (2 ^ 24)"
    by (simp add: field_simps)
  then have m: "\<bar>m\<bar> \<le> 2 ^ 24" unfolding m_def by (rule round_half_even_abs_less)
  show ?thesis
  proof (cases "\<bar>m\<bar> = 2 ^ 24")
    case False
    then show ?thesis using m r e fin by (intro that [of m e]) simp_all
  next
    case True
    then have "m = 2 * (sgn m * 2 ^ 23)" by (cases "0 < m") (simp_all add: sgn_if)
    then have "dy m e = dy (sgn m * 2 ^ 23) (e + 1)"
      by (simp add: dy_def power_int_add)
    moreover have "\<bar>sgn m * 2 ^ 23\<bar> < (2::int) ^ 24" by (simp add: abs_mult sgn_if)
    ultimately show ?thesis using r e fin by (intro that [of "sgn m * 2 ^ 23" "e + 1"]) simp_all
  qed
qed

lemma round_f32_idem:
  assumes "round_f32 q = Finite r"
  shows "round_f32 r = Finite r"
proof -
  obtain m e where "r = dy m e" "\<bar>m\<bar> < 2 ^ 24" "- 149 \<le> e" "\<bar>r\<bar> < 2 ^ 128"
    using assms by (rule round_f32_representable)
  then show ?thesis using round_f32_exact [of m e] by simp
qed

lemma is_finite_round: "round_f32 q = Finite r \<Longrightarrow> is_finite (Finite r)"
  by (simp add: is_finite_def round_f32_idem)

lemma is_finiteE:
  assumes "is_finite x"
  obtains m e where "x = Finite (dy m e)" and "\<bar>m\<bar> < 2 ^ 24" and "- 149 \<le> e"
    and "\<bar>dy m e\<bar> < 2 ^ 128"
proof -
  obtain q where x: "x = Finite q" and q: "round_f32 q = Finite q"
    using assms by (cases x) (simp_all add: is_finite_def)
  obtain m e where "q = dy m e" "\<bar>m\<bar> < 2 ^ 24" "- 149 \<le> e" "\<bar>q\<bar> < 2 ^ 128"
    using q by (rule round_f32_representable)
  then show ?thesis using x by (intro that [of m e]) simp_all
qed

section \<open>Evaluation at concrete inputs\<close>

subsection \<open>Arithmetic on dyadic numbers\<close>

lemma dy_mult: "dy m1 e1 * dy m2 e2 = dy (m1 * m2) (e1 + e2)"
  by (simp add: dy_def power_int_add)

lemma dy_align: "e' \<le> e \<Longrightarrow> dy m e = dy (m * 2 ^ nat (e - e')) e'"
  using dy_shift [of "e - e'" m e] by simp

lemma dy_add:
  "dy m1 e1 + dy m2 e2 =
     dy (m1 * 2 ^ nat (e1 - min e1 e2) + m2 * 2 ^ nat (e2 - min e1 e2)) (min e1 e2)"
proof -
  have "dy m1 e1 = dy (m1 * 2 ^ nat (e1 - min e1 e2)) (min e1 e2)"
    by (rule dy_align) simp
  moreover have "dy m2 e2 = dy (m2 * 2 ^ nat (e2 - min e1 e2)) (min e1 e2)"
    by (rule dy_align) simp
  moreover have "dy a e + dy b e = dy (a + b) e" for a b e
    by (simp add: dy_def algebra_simps)
  ultimately show ?thesis by metis
qed

lemma dy_minus: "- dy m e = dy (- m) e"
  by (simp add: dy_def)

lemma dy_less:
  "dy m1 e1 < dy m2 e2 \<longleftrightarrow>
     m1 * 2 ^ nat (e1 - min e1 e2) < m2 * 2 ^ nat (e2 - min e1 e2)"
proof -
  have "dy m1 e1 = dy (m1 * 2 ^ nat (e1 - min e1 e2)) (min e1 e2)"
    by (rule dy_align) simp
  moreover have "dy m2 e2 = dy (m2 * 2 ^ nat (e2 - min e1 e2)) (min e1 e2)"
    by (rule dy_align) simp
  moreover have "dy a e < dy b e \<longleftrightarrow> a < b" for a b e
    by (simp add: dy_def)
  ultimately show ?thesis by simp
qed

lemma trunc_dy:
  "trunc (dy m e) =
     (if 0 \<le> e then m * 2 ^ nat e else sgn m * drop_bit (nat (- e)) \<bar>m\<bar>)"
proof (cases "0 \<le> e")
  case True
  then have "dy m e = of_int (m * 2 ^ nat e)"
    by (simp add: dy_def power_int_nonneg_exp)
  moreover have "trunc (of_int k) = k" for k
    by (simp add: trunc_def)
  ultimately show ?thesis using True by (simp only: if_True)
next
  case False
  define n where "n = nat (- e)"
  have d: "dy m e = of_int m / of_int (2 ^ n)"
    using False by (simp add: dy_def n_def power_int_def field_simps)
  show ?thesis
  proof (cases "0 \<le> m")
    case True
    then have "0 \<le> dy m e" by (simp add: dy_def)
    then have "trunc (dy m e) = \<lfloor>dy m e\<rfloor>" by (simp add: trunc_def)
    also have "\<dots> = m div 2 ^ n" unfolding d by (rule floor_divide_of_int_eq)
    finally show ?thesis
      using True False by (simp add: drop_bit_eq_div n_def sgn_if)
  next
    case m: False
    then have neg: "dy m e < 0" by (simp add: dy_def mult_neg_pos)
    then have "trunc (dy m e) = \<lceil>dy m e\<rceil>" by (simp add: trunc_def)
    also have "\<dots> = - \<lfloor>- dy m e\<rfloor>" by (simp add: ceiling_def)
    also have "- dy m e = of_int (- m) / of_int (2 ^ n)" by (simp add: d)
    also have "\<lfloor>(of_int (- m) :: rat) / of_int (2 ^ n)\<rfloor> = (- m) div 2 ^ n"
      by (rule floor_divide_of_int_eq)
    finally show ?thesis
      using m False by (simp add: drop_bit_eq_div n_def sgn_if)
  qed
qed

subsection \<open>Evaluating the operations on dyadic operands\<close>

lemma int_to_f32_dy: "int_to_f32 n = round_f32 (dy n 0)"
  by (simp add: int_to_f32_def dy_def)

lemma bitlen_Bit0: "bitlen (numeral (Num.Bit0 k)) = bitlen (numeral k) + 1"
  by (subst compute_bitlen) simp

lemma bitlen_Bit1: "bitlen (numeral (Num.Bit1 k)) = bitlen (numeral k) + 1"
  by (subst compute_bitlen) simp

lemma bitlen_1: "bitlen 1 = 1"
  by (subst compute_bitlen) simp

lemmas f32_eval =
  dy_mult dy_add dy_minus dy_less trunc_dy int_to_f32_dy
  round_f32_dy round_dy_def round_shift_def bitlen_Bit0 bitlen_Bit1 bitlen_1 fsub_def
  Let_def

lemma lit_half: "f32_lit 0.5 = Finite (dy 1 (- 1))"
  unfolding f32_lit_def using round_f32_dy [of 1 "- 1"]
  by (simp add: round_dy_def bitlen_1 dy_def)

lemma lit_one: "f32_lit 1.0 = Finite (dy 1 0)"
  unfolding f32_lit_def using round_f32_dy [of 1 0]
  by (simp add: round_dy_def bitlen_1 dy_def)

lemma lit_zero: "f32_lit 0.0 = Finite (dy 0 0)"
  by (simp add: f32_lit_def round_f32_def dy_def)

lemma lit_sixth: "f32_lit 0.166666667 = Finite (dy 11184811 (- 26))"
  unfolding f32_lit_def by (rule round_f32_nearest) (simp_all add: dy_def)

lemma lit_third: "f32_lit 0.3333333333333 = Finite (dy 11184811 (- 25))"
  unfolding f32_lit_def by (rule round_f32_nearest) (simp_all add: dy_def)

lemma lit_inv_2pi: "f32_lit 0.159154943092 = Finite (dy 10680707 (- 26))"
  unfolding f32_lit_def by (rule round_f32_nearest) (simp_all add: dy_def)

lemma sin_weights_dy:
  "sin_weights fract =
     cubic_weights fmul fadd fsub (Finite (dy 1 0)) (Finite (dy 1 (- 1)))
       (Finite (dy 11184811 (- 26))) (Finite (dy 11184811 (- 25))) fract"
  by (simp only: sin_weights_def lit_one lit_half lit_sixth lit_third)

lemma dy_eq_iff:
  "dy m1 e1 = dy m2 e2 \<longleftrightarrow>
     m1 * 2 ^ nat (e1 - min e1 e2) = m2 * 2 ^ nat (e2 - min e1 e2)"
proof -
  have "dy m1 e1 = dy (m1 * 2 ^ nat (e1 - min e1 e2)) (min e1 e2)"
    by (rule dy_align) simp
  moreover have "dy m2 e2 = dy (m2 * 2 ^ nat (e2 - min e1 e2)) (min e1 e2)"
    by (rule dy_align) simp
  moreover have "dy a e = dy b e \<longleftrightarrow> a = b" for a b e
    by (simp add: dy_def)
  ultimately show ?thesis by simp
qed

lemma nth_Cons_pred: "(x # xs) ! numeral k = xs ! pred_numeral k"
  by (simp add: numeral_eq_Suc)

lemmas nth_eval =
  nth_Cons_pred nth_Cons_0 nth_Cons_Suc pred_numeral_simps BitM.simps nat_numeral nat_0 nat_1

lemma sinTable_entry:
  assumes "0 \<le> i" and "i < 259" and "round_f32 (sinTable_lit ! nat i) = Finite r"
  shows "sinTable i = Inr (Finite r)"
  using assms by (simp add: sinTable_def f32_lit_def)

lemma sin_fold_dy:
  "sin_fold x =
     (let in0 = fmul x (Finite (dy 10680707 (- 26)))
      in case f32_to_int32 in0 of
           Inl e \<Rightarrow> Inl e
         | Inr n0 \<Rightarrow>
             (case (if flt x (Finite (dy 0 0)) then int32_sub n0 1 else Inr n0) of
                Inl e \<Rightarrow> Inl e
              | Inr n \<Rightarrow> Inr (fsub in0 (int_to_f32 n))))"
  by (simp only: sin_fold_def lit_inv_2pi lit_zero)

lemmas routine_eval =
  arm_sin_f32_def sin_fold_dy sin_index_def sin_fetch_def sin_weights_dy cubic_weights_def
  TABLE_SIZE_def uint32_to_int32_def int32_sub_def dy_eq_iff f32_eval


lemma is_finite_dy:
  assumes "\<bar>m\<bar> < 2 ^ 24" and "- 149 \<le> e" and "e \<le> 103"
  shows "is_finite (Finite (dy m e))"
proof -
  have b: "bitlen \<bar>m\<bar> \<le> 24" using assms(1) by (simp add: bitlen_le_iff_power)
  then have "round_f32 (dy m e) = round_dy m e"
    using assms(3) by (intro round_f32_dy) simp
  also have "\<dots> = Finite (dy m e)"
    using b assms(2) by (simp add: round_dy_def Let_def dy_0)
  finally show ?thesis by (simp add: is_finite_def)
qed

subsection \<open>Table entries in single precision\<close>

lemma sinTable_0: "sinTable 0 = Inr (Finite (dy (- 13175472) (- 29)))"
proof (rule sinTable_entry)
  have a: "sinTable_lit ! nat 0 = - 0.024541229009628296"
    unfolding sinTable_lit_def by (simp only: nth_eval)
  show "round_f32 (sinTable_lit ! nat 0) = Finite (dy (- 13175472) (- 29))"
    unfolding a by (rule round_f32_nearest) (simp_all add: dy_def)
qed simp_all

lemma sinTable_1: "sinTable 1 = Inr (Finite (dy 0 0))"
proof (rule sinTable_entry)
  have a: "sinTable_lit ! nat 1 = 0.000000000000000000"
    unfolding sinTable_lit_def by (simp only: nth_eval)
  show "round_f32 (sinTable_lit ! nat 1) = Finite (dy 0 0)"
    unfolding a by (simp add: round_f32_def dy_def)
qed simp_all

lemma sinTable_2: "sinTable 2 = Inr (Finite (dy 13175472 (- 29)))"
proof (rule sinTable_entry)
  have a: "sinTable_lit ! nat 2 = 0.024541229009628296"
    unfolding sinTable_lit_def by (simp only: nth_eval)
  show "round_f32 (sinTable_lit ! nat 2) = Finite (dy 13175472 (- 29))"
    unfolding a by (rule round_f32_nearest) (simp_all add: dy_def)
qed simp_all

lemma sinTable_3: "sinTable 3 = Inr (Finite (dy 13171504 (- 28)))"
proof (rule sinTable_entry)
  have a: "sinTable_lit ! nat 3 = 0.049067676067352295"
    unfolding sinTable_lit_def by (simp only: nth_eval)
  show "round_f32 (sinTable_lit ! nat 3) = Finite (dy 13171504 (- 28))"
    unfolding a by (rule round_f32_nearest) (simp_all add: dy_def)
qed simp_all

lemma sinTable_63: "sinTable 63 = Inr (Finite (dy 16757007 (- 24)))"
proof (rule sinTable_entry)
  have a: "sinTable_lit ! nat 63 = 0.998795449733734130"
    unfolding sinTable_lit_def by (simp only: nth_eval)
  show "round_f32 (sinTable_lit ! nat 63) = Finite (dy 16757007 (- 24))"
    unfolding a by (rule round_f32_nearest) (simp_all add: dy_def)
qed simp_all

lemma sinTable_64: "sinTable 64 = Inr (Finite (dy 16772163 (- 24)))"
proof (rule sinTable_entry)
  have a: "sinTable_lit ! nat 64 = 0.999698817729949950"
    unfolding sinTable_lit_def by (simp only: nth_eval)
  show "round_f32 (sinTable_lit ! nat 64) = Finite (dy 16772163 (- 24))"
    unfolding a by (rule round_f32_nearest) (simp_all add: dy_def)
qed simp_all

lemma sinTable_65: "sinTable 65 = Inr (Finite (dy 8388608 (- 23)))"
proof (rule sinTable_entry)
  have a: "sinTable_lit ! nat 65 = 1.000000000000000000"
    unfolding sinTable_lit_def by (simp only: nth_eval)
  show "round_f32 (sinTable_lit ! nat 65) = Finite (dy 8388608 (- 23))"
    unfolding a by (rule round_f32_nearest) (simp_all add: dy_def)
qed simp_all

lemma sinTable_66: "sinTable 66 = Inr (Finite (dy 16772163 (- 24)))"
proof (rule sinTable_entry)
  have a: "sinTable_lit ! nat 66 = 0.999698817729949950"
    unfolding sinTable_lit_def by (simp only: nth_eval)
  show "round_f32 (sinTable_lit ! nat 66) = Finite (dy 16772163 (- 24))"
    unfolding a by (rule round_f32_nearest) (simp_all add: dy_def)
qed simp_all

lemma sinTable_128: "sinTable 128 = Inr (Finite (dy 13175472 (- 29)))"
proof (rule sinTable_entry)
  have a: "sinTable_lit ! nat 128 = 0.024541229009628296"
    unfolding sinTable_lit_def by (simp only: nth_eval)
  show "round_f32 (sinTable_lit ! nat 128) = Finite (dy 13175472 (- 29))"
    unfolding a by (rule round_f32_nearest) (simp_all add: dy_def)
qed simp_all

lemma sinTable_129: "sinTable 129 = Inr (Finite (dy 9218059 (- 76)))"
proof (rule sinTable_entry)
  have a: "sinTable_lit ! nat 129 = 0.000000000000000122"
    unfolding sinTable_lit_def by (simp only: nth_eval)
  show "round_f32 (sinTable_lit ! nat 129) = Finite (dy 9218059 (- 76))"
    unfolding a by (rule round_f32_nearest) (simp_all add: dy_def)
qed simp_all

lemma sinTable_130: "sinTable 130 = Inr (Finite (dy (- 13175472) (- 29)))"
proof (rule sinTable_entry)
  have a: "sinTable_lit ! nat 130 = - 0.024541229009628296"
    unfolding sinTable_lit_def by (simp only: nth_eval)
  show "round_f32 (sinTable_lit ! nat 130) = Finite (dy (- 13175472) (- 29))"
    unfolding a by (rule round_f32_nearest) (simp_all add: dy_def)
qed simp_all

lemma sinTable_131: "sinTable 131 = Inr (Finite (dy (- 13171504) (- 28)))"
proof (rule sinTable_entry)
  have a: "sinTable_lit ! nat 131 = - 0.049067676067352295"
    unfolding sinTable_lit_def by (simp only: nth_eval)
  show "round_f32 (sinTable_lit ! nat 131) = Finite (dy (- 13171504) (- 28))"
    unfolding a by (rule round_f32_nearest) (simp_all add: dy_def)
qed simp_all

lemma sinTable_192: "sinTable 192 = Inr (Finite (dy (- 16772163) (- 24)))"
proof (rule sinTable_entry)
  have a: "sinTable_lit ! nat 192 = - 0.999698817729949950"
    unfolding sinTable_lit_def by (simp only: nth_eval)
  show "round_f32 (sinTable_lit ! nat 192) = Finite (dy (- 16772163) (- 24))"
    unfolding a by (rule round_f32_nearest) (simp_all add: dy_def)
qed simp_all

lemma sinTable_193: "sinTable 193 = Inr (Finite (dy (- 8388608) (- 23)))"
proof (rule sinTable_entry)
  have a: "sinTable_lit ! nat 193 = - 1.000000000000000000"
    unfolding sinTable_lit_def by (simp only: nth_eval)
  show "round_f32 (sinTable_lit ! nat 193) = Finite (dy (- 8388608) (- 23))"
    unfolding a by (rule round_f32_nearest) (simp_all add: dy_def)
qed simp_all

lemma sinTable_194: "sinTable 194 = Inr (Finite (dy (- 16772163) (- 24)))"
proof (rule sinTable_entry)
  have a: "sinTable_lit ! nat 194 = - 0.999698817729949950"
    unfolding sinTable_lit_def by (simp only: nth_eval)
  show "round_f32 (sinTable_lit ! nat 194) = Finite (dy (- 16772163) (- 24))"
    unfolding a by (rule round_f32_nearest) (simp_all add: dy_def)
qed simp_all

lemma sinTable_195: "sinTable 195 = Inr (Finite (dy (- 16757007) (- 24)))"
proof (rule sinTable_entry)
  have a: "sinTable_lit ! nat 195 = - 0.998795449733734130"
    unfolding sinTable_lit_def by (simp only: nth_eval)
  show "round_f32 (sinTable_lit ! nat 195) = Finite (dy (- 16757007) (- 24))"
    unfolding a by (rule round_f32_nearest) (simp_all add: dy_def)
qed simp_all

section \<open>The table fetch\<close>

lemma sin_index_range:
  assumes "sin_index in1 = Inr (index, fract)"
  shows "0 \<le> index \<and> index \<le> 256"
  using assms by (auto simp: sin_index_def Let_def split: sum.splits if_splits)

lemma sin_fetch_defined:
  assumes "0 \<le> index" and "index \<le> 255"
  shows "\<exists>a b c d. sin_fetch index = Inr (a, b, c, d)"
  using assms by (simp add: sin_fetch_def sinTable_def)

lemma input_is_finite: "is_finite (Finite (- (1 / 2 ^ 30)))"
  using is_finite_dy [of "- 1" "- 30"] by (simp add: dy_def)

lemma sin_fold_tiny_negative: "sin_fold (Finite (dy (- 1) (- 30))) = Inr (Finite (dy 1 0))"
  by (simp add: sin_fold_dy int32_sub_def dy_eq_iff f32_eval)

lemma sin_index_one: "sin_index (Finite (dy 1 0)) = Inr (256, Finite (dy 0 0))"
  by (simp add: sin_index_def TABLE_SIZE_def uint32_to_int32_def dy_eq_iff f32_eval)

lemma arm_sin_f32_tiny_negative:
  "arm_sin_f32 (Finite (dy (- 1) (- 30))) = Inl TableOutOfBounds"
  by (simp add: routine_eval sinTable_def)

text \<open>
  C1. The claim: for every clamped index in \<open>[0, 256]\<close> the four fetches at
  \<open>index, \<dots>, index + 3\<close> stay inside the 259-entry table, so that no call reads entry
  259. The code does read entry 259: the finite input \<open>x = -2\<^sup>-\<^sup>3\<^sup>0\<close> folds to \<open>in = 1\<close>, which
  gives the index 256, left alone by the clamp, and the fourth fetch is
  \<^verbatim>\<open>sinTable[259]\<close>, outside the table.
\<close>

theorem fetch_at_index_256_reads_entry_259:
  "is_finite (Finite (- (1 / 2 ^ 30)))
   \<and> sin_fold (Finite (- (1 / 2 ^ 30))) = Inr (Finite 1)
   \<and> sin_index (Finite 1) = Inr (256, Finite 0)
   \<and> sinTable (256 + 3) = Inl TableOutOfBounds
   \<and> sin_fetch 256 = Inl TableOutOfBounds"
proof -
  have x: "Finite (- (1 / 2 ^ 30)) = Finite (dy (- 1) (- 30))"
    and one: "Finite 1 = Finite (dy 1 0)" and zero: "Finite 0 = Finite (dy 0 0)"
    by (simp_all add: dy_def)
  have "sin_fold (Finite (- (1 / 2 ^ 30))) = Inr (Finite 1)"
    unfolding x one by (rule sin_fold_tiny_negative)
  moreover have "sin_index (Finite 1) = Inr (256, Finite 0)"
    unfolding one zero by (rule sin_index_one)
  moreover have "sinTable (256 + 3) = Inl TableOutOfBounds"
    by (simp add: sinTable_def)
  moreover have "sin_fetch 256 = Inl TableOutOfBounds"
    by (simp add: sin_fetch_def sinTable_def)
  ultimately show ?thesis using input_is_finite by simp
qed

text \<open>
  C2. The claim: the routine is total on the finite single-precision numbers, no path
  and no table access can fail. At the finite input \<open>x = -2\<^sup>-\<^sup>3\<^sup>0\<close> the routine reads outside the
  table, and at the finite input \<open>x = 2\<^sup>1\<^sup>0\<^sup>0\<close> the conversion of the scaled input to
  \<^verbatim>\<open>int32_t\<close> is out of range.
\<close>

theorem arm_sin_f32_faults:
  "is_finite (Finite (- (1 / 2 ^ 30)))
   \<and> arm_sin_f32 (Finite (- (1 / 2 ^ 30))) = Inl TableOutOfBounds
   \<and> is_finite (Finite (2 ^ 100))
   \<and> arm_sin_f32 (Finite (2 ^ 100)) = Inl ConversionOutOfRange"
proof -
  have x: "Finite (- (1 / 2 ^ 30)) = Finite (dy (- 1) (- 30))"
    and y: "Finite (2 ^ 100) = Finite (dy 1 100)"
    by (simp_all add: dy_def)
  have "arm_sin_f32 (Finite (dy 1 100)) = Inl ConversionOutOfRange"
    by (simp add: arm_sin_f32_def sin_fold_dy f32_eval)
  moreover have "is_finite (Finite (dy 1 100))"
    by (rule is_finite_dy) simp_all
  ultimately show ?thesis
    unfolding x y using arm_sin_f32_tiny_negative input_is_finite [unfolded x] by simp
qed

section \<open>The table\<close>

lemma length_sinTable_lit: "length sinTable_lit = 259"
  by (simp add: sinTable_lit_def)

text \<open>
  C5. The table satisfies \<open>table[0] = table[256]\<close> and \<open>table[258] = table[2]\<close>, as
  equalities of the literal constants and so of their single-precision values. The
  table is a constant: a call of the routine reads at most four of its entries and
  yields a value only, there is no operation that writes to it.
\<close>

theorem sinTable_wraparound:
  "length sinTable_lit = 259
   \<and> sinTable_lit ! 0 = sinTable_lit ! 256 \<and> sinTable_lit ! 258 = sinTable_lit ! 2
   \<and> sinTable 0 = Inr (f32_lit (- 0.024541229009628296)) \<and> sinTable 0 = sinTable 256
   \<and> sinTable 2 = Inr (f32_lit 0.024541229009628296) \<and> sinTable 258 = sinTable 2"
proof -
  have t0: "sinTable_lit ! 0 = - 0.024541229009628296"
    unfolding sinTable_lit_def by (simp only: nth_eval)
  have t256: "sinTable_lit ! 256 = - 0.024541229009628296"
    unfolding sinTable_lit_def by (simp only: nth_eval)
  have t2: "sinTable_lit ! 2 = 0.024541229009628296"
    unfolding sinTable_lit_def by (simp only: nth_eval)
  have t258: "sinTable_lit ! 258 = 0.024541229009628296"
    unfolding sinTable_lit_def by (simp only: nth_eval)
  have "sinTable 0 = Inr (f32_lit (sinTable_lit ! 0))"
    and "sinTable 256 = Inr (f32_lit (sinTable_lit ! 256))"
    and "sinTable 2 = Inr (f32_lit (sinTable_lit ! 2))"
    and "sinTable 258 = Inr (f32_lit (sinTable_lit ! 258))"
    by (simp_all add: sinTable_def)
  then show ?thesis
    unfolding t0 t256 t2 t258 using length_sinTable_lit by simp
qed

lemma round_f32_below_one:
  assumes "\<bar>q\<bar> \<le> 9997 / 10000"
  obtains r where "round_f32 q = Finite r" and "\<bar>r\<bar> < 1"
proof (cases "q = 0")
  case True
  show ?thesis by (rule that [of 0]) (simp_all add: True round_f32_def)
next
  case False
  have "\<bar>q\<bar> \<le> 2 powi 0" using assms by simp
  then obtain r where r: "round_f32 q = Finite r" and err: "\<bar>r - q\<bar> \<le> 2 powi (f32_exp q) / 2"
    by (rule round_f32_bounded) simp_all
  have "ilog2 \<bar>q\<bar> < 0" using False assms by (intro ilog2_less) simp_all
  then have "f32_exp q \<le> - 24" by (simp add: f32_exp_def)
  then have "(2::rat) powi (f32_exp q) \<le> 2 powi (- 24)" by (simp only: two_powi_le_iff)
  then have "\<bar>r - q\<bar> \<le> 1 / 33554432" using err by simp
  then have "\<bar>r\<bar> < 1" using assms by linarith
  with r show ?thesis by (rule that)
qed

lemma sinTable_lit_low:
  "list_all (\<lambda>q. \<bar>q\<bar> \<le> 9997 / 10000) (take 65 sinTable_lit)"
  unfolding sinTable_lit_def by simp

lemma sinTable_lit_mid:
  "list_all (\<lambda>q. \<bar>q\<bar> \<le> 9997 / 10000) (take 127 (drop 66 sinTable_lit))"
  unfolding sinTable_lit_def by simp

lemma sinTable_lit_high:
  "list_all (\<lambda>q. \<bar>q\<bar> \<le> 9997 / 10000) (drop 194 sinTable_lit)"
  unfolding sinTable_lit_def by simp

lemma sinTable_lit_65: "sinTable_lit ! 65 = 1.000000000000000000"
  unfolding sinTable_lit_def by (simp only: nth_eval)

lemma sinTable_lit_193: "sinTable_lit ! 193 = - 1.000000000000000000"
  unfolding sinTable_lit_def by (simp only: nth_eval)

lemma sinTable_lit_others:
  assumes "i < 259" and "i \<noteq> 65" and "i \<noteq> 193"
  shows "\<bar>sinTable_lit ! i\<bar> \<le> 9997 / 10000"
proof -
  consider "i < 65" | "66 \<le> i" "i < 193" | "194 \<le> i" using assms by linarith
  then show ?thesis
  proof cases
    case 1
    then have "sinTable_lit ! i = take 65 sinTable_lit ! i" by simp
    moreover have "i < length (take 65 sinTable_lit)"
      using 1 by (simp add: length_sinTable_lit)
    ultimately show ?thesis using sinTable_lit_low by (simp add: list_all_length)
  next
    case 2
    then have "sinTable_lit ! i = take 127 (drop 66 sinTable_lit) ! (i - 66)"
      by (simp add: length_sinTable_lit)
    moreover have "i - 66 < length (take 127 (drop 66 sinTable_lit))"
      using 2 by (simp add: length_sinTable_lit)
    ultimately show ?thesis using sinTable_lit_mid by (simp add: list_all_length)
  next
    case 3
    then have "sinTable_lit ! i = drop 194 sinTable_lit ! (i - 194)"
      by (simp add: length_sinTable_lit)
    moreover have "i - 194 < length (drop 194 sinTable_lit)"
      using 3 assms(1) by (simp add: length_sinTable_lit)
    ultimately show ?thesis using sinTable_lit_high by (simp add: list_all_length)
  qed
qed

lemma sinTable_lit_le_one:
  assumes "i < 259"
  shows "\<bar>sinTable_lit ! i\<bar> \<le> 1"
proof -
  consider "i = 65" | "i = 193" | "i \<noteq> 65" "i \<noteq> 193" by blast
  then show ?thesis
  proof cases
    case 1
    then show ?thesis by (simp add: sinTable_lit_65)
  next
    case 2
    then show ?thesis by (simp add: sinTable_lit_193)
  next
    case 3
    then have "\<bar>sinTable_lit ! i\<bar> \<le> 9997 / 10000"
      using assms by (intro sinTable_lit_others)
    then show ?thesis by simp
  qed
qed

text \<open>
  C10. Every entry of the table lies in \<open>[-1, 1]\<close>, and the bounds are attained only by
  \<open>table[65] = 1\<close> and \<open>table[193] = -1\<close>.
\<close>

theorem sinTable_range:
  assumes "0 \<le> i" and "i < 259"
  shows "\<exists>r. sinTable i = Inr (Finite r) \<and> - 1 \<le> r \<and> r \<le> 1
           \<and> (r = 1 \<longleftrightarrow> i = 65) \<and> (r = - 1 \<longleftrightarrow> i = 193)"
proof -
  have t: "sinTable i = Inr (round_f32 (sinTable_lit ! nat i))"
    using assms by (simp add: sinTable_def f32_lit_def)
  consider "i = 65" | "i = 193" | "i \<noteq> 65" "i \<noteq> 193" by blast
  then show ?thesis
  proof cases
    case 1
    have "round_f32 1 = Finite 1"
      using round_f32_exact [of 1 0] by (simp add: dy_def)
    then show ?thesis using 1 t by (simp add: sinTable_lit_65)
  next
    case 2
    have "round_f32 (- 1) = Finite (- 1)"
      using round_f32_exact [of "- 1" 0] by (simp add: dy_def)
    then show ?thesis using 2 t by (simp add: sinTable_lit_193)
  next
    case 3
    then have "\<bar>sinTable_lit ! nat i\<bar> \<le> 9997 / 10000"
      using assms by (intro sinTable_lit_others) auto
    then obtain r where "round_f32 (sinTable_lit ! nat i) = Finite r" and "\<bar>r\<bar> < 1"
      by (rule round_f32_below_one)
    then show ?thesis using 3 t by auto
  qed
qed

theorem sinTable_range_witness:
  "(0::int) \<le> 65 \<and> (65::int) < 259
   \<and> (\<exists>r. sinTable 65 = Inr (Finite r) \<and> - 1 \<le> r \<and> r \<le> 1
           \<and> (r = 1 \<longleftrightarrow> (65::int) = 65) \<and> (r = - 1 \<longleftrightarrow> (65::int) = 193))"
  using sinTable_range [of 65] by simp


section \<open>Known values\<close>

lemma lit_x_zero: "f32_lit (0.0) = Finite (dy 0 0)"
  by (simp add: f32_lit_def round_f32_def dy_def)

lemma arm_sin_f32_zero: "arm_sin_f32 (Finite (dy 0 0)) = Inr (Finite (dy 0 0))"
  by (simp add: routine_eval sinTable_0 sinTable_1 sinTable_2 sinTable_3)

lemma lit_x_half_pi: "f32_lit (1.5707963) = Finite (dy 13176794 (- 23))"
  unfolding f32_lit_def by (rule round_f32_nearest) (simp_all add: dy_def)

lemma arm_sin_f32_half_pi: "arm_sin_f32 (Finite (dy 13176794 (- 23))) = Inr (Finite (dy 1 0))"
  by (simp add: routine_eval sinTable_63 sinTable_64 sinTable_65 sinTable_66)

lemma lit_x_pi: "f32_lit (3.14159265) = Finite (dy 13176795 (- 22))"
  unfolding f32_lit_def by (rule round_f32_nearest) (simp_all add: dy_def)

lemma arm_sin_f32_pi: "arm_sin_f32 (Finite (dy 13176795 (- 22))) = Inr (Finite (dy 9218059 (- 76)))"
  by (simp add: routine_eval sinTable_128 sinTable_129 sinTable_130 sinTable_131)

lemma lit_x_three_half_pi: "f32_lit (4.71238898) = Finite (dy 9882596 (- 21))"
  unfolding f32_lit_def by (rule round_f32_nearest) (simp_all add: dy_def)

lemma arm_sin_f32_three_half_pi: "arm_sin_f32 (Finite (dy 9882596 (- 21))) = Inr (Finite (dy (- 1) 0))"
  by (simp add: routine_eval sinTable_192 sinTable_193 sinTable_194 sinTable_195)

lemma lit_x_minus_half_pi: "f32_lit (- 1.5707963) = Finite (dy (- 13176794) (- 23))"
  unfolding f32_lit_def by (rule round_f32_nearest) (simp_all add: dy_def)

lemma arm_sin_f32_minus_half_pi: "arm_sin_f32 (Finite (dy (- 13176794) (- 23))) = Inr (Finite (dy (- 1) 0))"
  by (simp add: routine_eval sinTable_192 sinTable_193 sinTable_194 sinTable_195)

text \<open>
  C6. At the five listed points the routine returns a value within \<open>10\<^sup>-\<^sup>4\<close> of the
  expected sine: \<open>0\<close> at \<open>0.0\<close>, \<open>1\<close> at \<open>1.5707963\<close>, \<open>0\<close> at \<open>3.14159265\<close>, \<open>-1\<close> at
  \<open>4.71238898\<close> and \<open>-1\<close> at \<open>-1.5707963\<close>.
\<close>

theorem arm_sin_f32_known_values:
  "returns_near (arm_sin_f32 (f32_lit 0.0)) 0.0 (1 / 10 ^ 4)
   \<and> returns_near (arm_sin_f32 (f32_lit 1.5707963)) 1.0 (1 / 10 ^ 4)
   \<and> returns_near (arm_sin_f32 (f32_lit 3.14159265)) 0.0 (1 / 10 ^ 4)
   \<and> returns_near (arm_sin_f32 (f32_lit 4.71238898)) (- 1.0) (1 / 10 ^ 4)
   \<and> returns_near (arm_sin_f32 (f32_lit (- 1.5707963))) (- 1.0) (1 / 10 ^ 4)"
  unfolding lit_x_zero lit_x_half_pi lit_x_pi lit_x_three_half_pi lit_x_minus_half_pi
    arm_sin_f32_zero arm_sin_f32_half_pi arm_sin_f32_pi arm_sin_f32_three_half_pi
    arm_sin_f32_minus_half_pi
  by (simp add: returns_near_def dy_def)

section \<open>Interpolation on a sample\<close>

lemma sin_weights_zero:
  "sin_weights (Finite (dy 0 0)) =
     (Finite (dy 0 0), Finite (dy 1 0), Finite (dy 0 0), Finite (dy 0 0))"
  by (simp add: sin_weights_dy cubic_weights_def dy_eq_iff f32_eval)

lemma sinTable_finite:
  assumes "sinTable i = Inr v"
  obtains r where "v = Finite r" and "round_f32 r = Finite r" and "\<bar>r\<bar> \<le> 1"
proof -
  have i: "0 \<le> i" "i < 259" using assms by (auto simp: sinTable_def split: if_splits)
  then have "\<bar>sinTable_lit ! nat i\<bar> \<le> 1" by (intro sinTable_lit_le_one) simp
  then have "\<bar>sinTable_lit ! nat i\<bar> \<le> 2 powi 0" by simp
  then obtain r where r: "round_f32 (sinTable_lit ! nat i) = Finite r" and "\<bar>r\<bar> \<le> 2 powi 0"
    by (rule round_f32_bounded) simp_all
  then have "\<bar>r\<bar> \<le> 1" by simp
  moreover have "round_f32 r = Finite r" using r by (rule round_f32_idem)
  moreover have "v = Finite r"
    using assms i r by (simp add: sinTable_def f32_lit_def)
  ultimately show ?thesis by (intro that [of r])
qed

lemma fmul_zero_left: "fmul (Finite 0) (Finite a) = Finite 0"
  by (simp add: round_f32_def)

lemma fmul_zero_right: "fmul (Finite a) (Finite 0) = Finite 0"
  by (simp add: round_f32_def)

text \<open>When the fractional offset is zero and the index is at most 255, the routine
  returns the sample \<open>b = table[index + 1]\<close> unchanged.\<close>

lemma arm_sin_f32_on_sample:
  assumes "sin_fold x = Inr in1" and "sin_index in1 = Inr (index, Finite 0)"
    and "index \<le> 255"
  shows "arm_sin_f32 x = sinTable (index + 1)"
proof -
  have idx: "0 \<le> index" using assms(2) sin_index_range by blast
  obtain a b c d where f: "sin_fetch index = Inr (a, b, c, d)"
    using sin_fetch_defined [OF idx assms(3)] by blast
  then have t: "sinTable index = Inr a" "sinTable (index + 1) = Inr b"
    "sinTable (index + 2) = Inr c" "sinTable (index + 3) = Inr d"
    by (auto simp: sin_fetch_def split: sum.splits)
  obtain ra where a: "a = Finite ra" using t(1) by (rule sinTable_finite)
  obtain rb where b: "b = Finite rb" "round_f32 rb = Finite rb" using t(2) by (rule sinTable_finite)
  obtain rc where c: "c = Finite rc" using t(3) by (rule sinTable_finite)
  obtain rd where d: "d = Finite rd" using t(4) by (rule sinTable_finite)
  have w: "sin_weights (Finite 0) = (Finite 0, Finite 1, Finite 0, Finite 0)"
    using sin_weights_zero by (simp add: dy_def)
  show ?thesis
    unfolding t(2) a b(1) c d
    using f [unfolded a b(1) c d]
    by (simp add: arm_sin_f32_def assms(1,2) w b(2) round_f32_def [of 0])
qed

text \<open>
  C9. The claim: whenever the fractional offset is exactly zero the weights are exactly
  \<open>(0, 1, 0, 0)\<close> and the routine returns exactly \<open>b = table[index + 1]\<close>; in particular
  the result at \<open>0.0\<close> is exactly \<open>0.0\<close>. The weights are as claimed and so is the result
  at \<open>0.0\<close>, but at the finite input \<open>x = -2\<^sup>-\<^sup>3\<^sup>0\<close> the offset is zero, the index is 256, the
  sample \<open>b = table[257]\<close> exists, and the routine does not return it: the fourth fetch
  is outside the table.
\<close>

theorem zero_offset_at_index_256:
  "sin_weights (Finite 0) = (Finite 0, Finite 1, Finite 0, Finite 0)
   \<and> arm_sin_f32 (Finite 0) = Inr (Finite 0)
   \<and> sin_fold (Finite (- (1 / 2 ^ 30))) = Inr (Finite 1)
   \<and> sin_index (Finite 1) = Inr (256, Finite 0)
   \<and> sinTable (256 + 1) = Inr (f32_lit (- 0.000000000000000245))
   \<and> arm_sin_f32 (Finite (- (1 / 2 ^ 30))) = Inl TableOutOfBounds"
proof -
  have x: "Finite (- (1 / 2 ^ 30)) = Finite (dy (- 1) (- 30))"
    and one: "Finite 1 = Finite (dy 1 0)" and zero: "Finite 0 = Finite (dy 0 0)"
    by (simp_all add: dy_def)
  have t: "sinTable_lit ! 257 = - 0.000000000000000245"
    unfolding sinTable_lit_def by (simp only: nth_eval)
  have "sinTable 257 = Inr (f32_lit (sinTable_lit ! 257))"
    by (simp add: sinTable_def)
  then have "sinTable (256 + 1) = Inr (f32_lit (- 0.000000000000000245))"
    unfolding t by simp
  then show ?thesis
    unfolding x one zero
    using sin_weights_zero arm_sin_f32_zero sin_fold_tiny_negative sin_index_one
      arm_sin_f32_tiny_negative
    by simp
qed

section \<open>Folding the input into one period\<close>

lemma round_f32_ge_pow2:
  assumes "round_f32 q = Finite r" and "2 powi k \<le> q" and "- 149 \<le> k"
  shows "2 powi k \<le> r"
proof -
  have q: "0 < q" using assms(2) by (rule less_le_trans [rotated]) simp
  define j where "j = ilog2 q"
  define e where "e = f32_exp q"
  have kj: "k \<le> j" unfolding j_def using assms(2) by (rule ilog2_ge)
  have ej: "e \<le> j" using kj assms(3) q by (simp add: e_def f32_exp_def j_def)
  have "(2::rat) powi j = 2 powi (j - e) * 2 powi e"
    by (simp add: power_int_add [symmetric])
  also have "(2::rat) powi (j - e) = of_int (2 ^ nat (j - e))"
    using ej by (intro two_powi_nat) simp
  finally have g: "(2::rat) powi j = of_int (2 ^ nat (j - e)) * 2 powi e" .
  have "2 powi j \<le> q" unfolding j_def using q by (rule ilog2_lower)
  then have "2 powi j \<le> quantize e q" unfolding g by (rule quantize_ge)
  moreover have "r = quantize e q"
    using assms(1) q by (auto simp: round_f32_def Let_def e_def split: if_splits)
  moreover have "(2::rat) powi k \<le> 2 powi j" using kj by (simp only: two_powi_le_iff)
  ultimately show ?thesis by simp
qed

lemma round_f32_abs_le_int:
  assumes "\<bar>q\<bar> \<le> of_int N" and "N < 2 ^ 24"
  obtains r where "round_f32 q = Finite r" and "\<bar>r\<bar> \<le> of_int N"
    and "0 \<le> q \<longrightarrow> 0 \<le> r" and "q \<le> 0 \<longrightarrow> r \<le> 0"
proof (cases "q = 0")
  case True
  have "0 \<le> N" using assms(1) True by simp
  then show ?thesis by (intro that [of 0]) (simp_all add: True round_f32_def)
next
  case False
  define e where "e = f32_exp q"
  have "(of_int N :: rat) < of_int (2 ^ 24)" using assms(2) by (simp only: of_int_less_iff)
  then have lt: "\<bar>q\<bar> < 2 powi 24" using assms(1) by simp
  then have "ilog2 \<bar>q\<bar> < 24" using False by (intro ilog2_less) simp_all
  then have e: "e \<le> 0" by (simp add: e_def f32_exp_def)
  have g: "(of_int N :: rat) = of_int (N * 2 ^ nat (- e)) * 2 powi e"
    using dy_align [of e 0 N] e by (simp add: dy_def)
  have "\<bar>q\<bar> \<le> of_int (N * 2 ^ nat (- e)) * 2 powi e"
    using assms(1) by (simp only: g [symmetric])
  then have "\<bar>quantize e q\<bar> \<le> of_int (N * 2 ^ nat (- e)) * 2 powi e"
    by (rule quantize_abs_le)
  then have "\<bar>quantize e q\<bar> \<le> of_int N"
    by (simp only: g [symmetric])
  moreover have "round_f32 q = Finite (quantize e q)"
    unfolding e_def using False lt by (intro round_f32_eq [where k = 24]) simp_all
  moreover have "0 \<le> q \<longrightarrow> 0 \<le> quantize e q" by (simp add: quantize_nonneg)
  moreover have "q \<le> 0 \<longrightarrow> quantize e q \<le> 0" by (simp add: quantize_nonpos)
  ultimately show ?thesis by (intro that [of "quantize e q"])
qed

lemma int_to_f32_exact:
  assumes "\<bar>n\<bar> < 2 ^ 24"
  shows "int_to_f32 n = Finite (of_int n)"
proof -
  have "(of_int \<bar>n\<bar> :: rat) < of_int (2 ^ 24)" using assms by (simp only: of_int_less_iff)
  then have "\<bar>dy n 0\<bar> < 2 ^ 128" by (simp add: dy_def)
  then have "round_f32 (dy n 0) = Finite (dy n 0)"
    using assms by (intro round_f32_exact) simp_all
  then show ?thesis by (simp add: int_to_f32_def dy_def)
qed

text \<open>The fractional part of a dyadic number is a dyadic number with the same exponent.\<close>

lemma dy_minus_int:
  assumes "e \<le> 0"
  shows "dy m e - of_int n = dy (m - n * 2 ^ nat (- e)) e"
  using assms by (simp add: dy_def power_int_def field_simps)

lemma dy_int:
  assumes "0 \<le> e"
  shows "dy m e = of_int (m * 2 ^ nat e)"
  using assms by (simp add: dy_def power_int_def)

lemma dy_pos_ge:
  assumes "0 < dy m e"
  shows "2 powi e \<le> dy m e"
proof -
  have "0 < (of_int m :: rat)"
    by (rule zero_less_mult_pos2 [OF assms [unfolded dy_def] two_powi_pos])
  then have "0 < m" by simp
  then have "(1::rat) \<le> of_int m" by simp
  then have "1 * 2 powi e \<le> of_int m * (2::rat) powi e"
    by (intro mult_right_mono) simp_all
  then show ?thesis by (simp add: dy_def)
qed

lemma floor_dy:
  assumes "e \<le> 0"
  shows "\<lfloor>dy m e\<rfloor> = m div 2 ^ nat (- e)"
proof -
  have "dy m e = of_int m / of_int (2 ^ nat (- e))"
    using assms by (simp add: dy_def power_int_def field_simps)
  then show ?thesis by (simp only: floor_divide_of_int_eq)
qed

lemma scaled_input:
  assumes "\<bar>q\<bar> \<le> 10 ^ 8"
  obtains u m e where "round_f32 (q * dy 10680707 (- 26)) = Finite u"
    and "u = dy m e" and "\<bar>m\<bar> < 2 ^ 24" and "- 149 \<le> e"
    and "\<bar>u\<bar> \<le> 15915495" and "0 \<le> q \<longrightarrow> 0 \<le> u" and "q \<le> 0 \<longrightarrow> u \<le> 0"
proof -
  define p where "p = q * dy 10680707 (- 26)"
  have "\<bar>p\<bar> = \<bar>q\<bar> * (10680707 / 2 ^ 26)"
    by (simp add: p_def dy_def abs_mult)
  also have "\<dots> \<le> 10 ^ 8 * (10680707 / 2 ^ 26)"
    using assms by (intro mult_right_mono) simp_all
  also have "\<dots> \<le> of_int 15915495" by simp
  finally have "\<bar>p\<bar> \<le> of_int 15915495" .
  then obtain u where u: "round_f32 p = Finite u" "\<bar>u\<bar> \<le> of_int 15915495"
    "0 \<le> p \<longrightarrow> 0 \<le> u" "p \<le> 0 \<longrightarrow> u \<le> 0"
    by (rule round_f32_abs_le_int) simp
  obtain m e where me: "u = dy m e" "\<bar>m\<bar> < 2 ^ 24" "- 149 \<le> e"
    using u(1) by (rule round_f32_representable)
  have "0 \<le> q \<longrightarrow> 0 \<le> p" "q \<le> 0 \<longrightarrow> p \<le> 0"
    by (simp_all add: p_def dy_def mult_nonpos_nonneg)
  then have "0 \<le> q \<longrightarrow> 0 \<le> u" "q \<le> 0 \<longrightarrow> u \<le> 0"
    using u(3,4) by blast+
  then show ?thesis using me u(1,2) by (intro that [of u m e]) (simp_all add: p_def)
qed

lemma frac_exact:
  assumes "u = dy m e" and "\<bar>m\<bar> < 2 ^ 24" and "- 149 \<le> e" and "0 \<le> u"
  shows "round_f32 (u - of_int \<lfloor>u\<rfloor>) = Finite (u - of_int \<lfloor>u\<rfloor>)"
proof (cases "0 \<le> e")
  case True
  then have "u = of_int (m * 2 ^ nat e)" unfolding assms(1) by (rule dy_int)
  then have "u - of_int \<lfloor>u\<rfloor> = 0" by simp
  then show ?thesis by (simp add: round_f32_def)
next
  case False
  define k where "k = nat (- e)"
  define m' where "m' = m mod 2 ^ k"
  have e: "e \<le> 0" using False by simp
  have "0 \<le> dy m e" using assms(1,4) by simp
  moreover have "of_int m = dy m e / 2 powi e" by (simp add: dy_def)
  ultimately have "0 \<le> (of_int m :: rat)" by simp
  then have m: "0 \<le> m" by simp
  have fl: "\<lfloor>u\<rfloor> = m div 2 ^ k" unfolding assms(1) k_def using e by (rule floor_dy)
  have "u - of_int \<lfloor>u\<rfloor> = dy (m - \<lfloor>u\<rfloor> * 2 ^ k) e"
    unfolding assms(1) k_def using e by (rule dy_minus_int)
  also have "m - \<lfloor>u\<rfloor> * 2 ^ k = m'"
    unfolding fl m'_def by (simp add: minus_div_mult_eq_mod)
  finally have y: "u - of_int \<lfloor>u\<rfloor> = dy m' e" .
  have "0 \<le> m'" "m' \<le> m" using m by (simp_all add: m'_def zmod_le_nonneg_dividend)
  then have m': "\<bar>m'\<bar> < 2 ^ 24" using assms(2) by simp
  have lt: "u - of_int \<lfloor>u\<rfloor> < 1" and ge: "0 \<le> u - of_int \<lfloor>u\<rfloor>" by linarith+
  then have "\<bar>dy m' e\<bar> < 2 ^ 128" unfolding y [symmetric] by simp
  then have "round_f32 (dy m' e) = Finite (dy m' e)"
    using m' assms(3) by (intro round_f32_exact)
  then show ?thesis by (simp only: y)
qed

lemma fold_neg:
  assumes "u = dy m e" and "- 149 \<le> e" and "u \<le> 0"
  obtains r where "round_f32 (u - of_int (\<lceil>u\<rceil> - 1)) = Finite r" and "0 < r" and "r \<le> 1"
proof -
  define y where "y = u - of_int (\<lceil>u\<rceil> - 1)"
  have y: "0 < y" "y \<le> 1" unfolding y_def by (simp_all, linarith+)
  define e' where "e' = min e 0"
  have "\<exists>M. y = dy M e'"
  proof (cases "0 \<le> e")
    case True
    then have "u = of_int (m * 2 ^ nat e)" unfolding assms(1) by (rule dy_int)
    then have "y = dy 1 0" by (simp add: y_def dy_def)
    then show ?thesis using True by (auto simp: e'_def min_def)
  next
    case False
    then have "u - of_int (\<lceil>u\<rceil> - 1) = dy (m - (\<lceil>u\<rceil> - 1) * 2 ^ nat (- e)) e"
      unfolding assms(1) by (intro dy_minus_int) simp
    then show ?thesis using False by (auto simp: e'_def min_def y_def)
  qed
  then obtain M where M: "y = dy M e'" ..
  have lo: "2 powi e' \<le> y" using y(1) unfolding M by (rule dy_pos_ge)
  have "\<bar>y\<bar> \<le> 2 powi 0" using y by simp
  then obtain r where r: "round_f32 y = Finite r" "\<bar>r\<bar> \<le> 2 powi 0"
    by (rule round_f32_bounded) simp_all
  have "2 powi e' \<le> r"
    using r(1) lo by (rule round_f32_ge_pow2) (use assms(2) in \<open>simp add: e'_def\<close>)
  moreover have "0 < (2::rat) powi e'" by simp
  ultimately have "0 < r" by (rule less_le_trans [rotated])
  then show ?thesis using r by (intro that [of r]) (simp_all add: y_def)
qed

lemma trunc_cases: "trunc u = (if 0 \<le> u then \<lfloor>u\<rfloor> else \<lceil>u\<rceil>)"
  by (simp add: trunc_def)

lemma sin_fold_large_negative:
  "sin_fold (Finite (dy (- 13176796) 3)) = Inr (Finite (dy 2 0))"
  by (simp add: sin_fold_dy int32_sub_def dy_eq_iff f32_eval)

text \<open>
  C3. The claim: for every finite \<open>x\<close> the folded position \<open>in = u - n\<close> lies in \<open>[0, 1)\<close>.
  It does not at \<open>x = -2\<^sup>-\<^sup>3\<^sup>0\<close>, where \<open>u + 1\<close> rounds to \<open>in = 1\<close>, nor at \<open>x = -105414368\<close>,
  where \<open>n = -16777219\<close> is not a single-precision number and \<open>in = 2\<close>.
\<close>

theorem sin_fold_outside_unit_interval:
  "is_finite (Finite (- (1 / 2 ^ 30)))
   \<and> sin_fold (Finite (- (1 / 2 ^ 30))) = Inr (Finite 1)
   \<and> is_finite (Finite (- 105414368))
   \<and> sin_fold (Finite (- 105414368)) = Inr (Finite 2)"
proof -
  have x: "Finite (- (1 / 2 ^ 30)) = Finite (dy (- 1) (- 30))"
    and y: "Finite (- 105414368) = Finite (dy (- 13176796) 3)"
    and one: "Finite 1 = Finite (dy 1 0)" and two: "Finite 2 = Finite (dy 2 0)"
    by (simp_all add: dy_def)
  have "is_finite (Finite (dy (- 13176796) 3))" by (rule is_finite_dy) simp_all
  then show ?thesis
    unfolding x y one two
    using sin_fold_tiny_negative sin_fold_large_negative input_is_finite [unfolded x]
    by (intro conjI)
qed

text \<open>The folding step in detail: \<open>u\<close> is the scaled input, \<open>n\<close> the period count and
  \<open>r\<close> the folded position.\<close>

lemma sin_fold_detail:
  assumes "\<bar>q\<bar> \<le> 10 ^ 8"
  obtains u n r where "round_f32 (q * dy 10680707 (- 26)) = Finite u"
    and "round_f32 (u - of_int n) = Finite r" and "sin_fold (Finite q) = Inr (Finite r)"
    and "0 \<le> r" and "r \<le> 1" and "0 \<le> q \<longrightarrow> r < 1" and "q < 0 \<longrightarrow> 0 < r"
    and "\<bar>u - of_int n\<bar> \<le> 1"
proof -
  obtain u m e where mul: "round_f32 (q * dy 10680707 (- 26)) = Finite u"
    and u: "u = dy m e" "\<bar>m\<bar> < 2 ^ 24" "- 149 \<le> e" "\<bar>u\<bar> \<le> 15915495"
    and sg: "0 \<le> q \<longrightarrow> 0 \<le> u" "q \<le> 0 \<longrightarrow> u \<le> 0"
    using assms by (rule scaled_input)
  have tr: "\<bar>trunc u\<bar> \<le> 15915495"
    using u(4) unfolding trunc_cases by (auto simp: abs_le_iff floor_le_iff le_floor_iff
        ceiling_le_iff le_ceiling_iff) linarith+
  then have conv: "- 2147483648 \<le> trunc u" "trunc u < 2147483648" by simp_all
  show ?thesis
  proof (cases "0 \<le> q")
    case True
    then have u0: "0 \<le> u" using sg(1) by simp
    have n: "int_to_f32 (trunc u) = Finite (of_int \<lfloor>u\<rfloor>)"
      using tr u0 by (simp add: trunc_cases int_to_f32_exact)
    define r where "r = u - of_int \<lfloor>u\<rfloor>"
    have r: "round_f32 (u - of_int \<lfloor>u\<rfloor>) = Finite r"
      unfolding r_def using u(1,2,3) u0 by (rule frac_exact)
    have r01: "0 \<le> r" "r < 1" unfolding r_def by linarith+
    have "sin_fold (Finite q) = Inr (Finite r)"
      using True r by (simp add: sin_fold_dy mul conv dy_0 n fsub_def)
    then show ?thesis
      using mul r r01 True by (intro that [of u "\<lfloor>u\<rfloor>" r]) (simp_all add: r_def)
  next
    case False
    then have u0: "u \<le> 0" using sg(2) by simp
    have t: "trunc u = \<lceil>u\<rceil>" using u0 by (auto simp: trunc_cases)
    have c: "- 15915495 \<le> \<lceil>u\<rceil>" "\<lceil>u\<rceil> \<le> 0"
      using tr u0 unfolding t by (simp_all add: ceiling_le_iff) linarith
    have sub: "int32_sub (trunc u) 1 = Inr (\<lceil>u\<rceil> - 1)"
      unfolding int32_sub_def t using c by simp
    have "\<bar>k - 1\<bar> < 2 ^ 24" if "- 15915495 \<le> k" "k \<le> 0" for k :: int
      using that by simp
    then have n: "int_to_f32 (\<lceil>u\<rceil> - 1) = Finite (of_int (\<lceil>u\<rceil> - 1))"
      using c by (intro int_to_f32_exact) blast
    obtain r where r: "round_f32 (u - of_int (\<lceil>u\<rceil> - 1)) = Finite r" "0 < r" "r \<le> 1"
      using u(1,3) u0 by (rule fold_neg)
    have in1: "fsub (Finite u) (int_to_f32 (\<lceil>u\<rceil> - 1)) = Finite r"
      unfolding n fsub_def fneg.simps fadd.simps using r(1)
      by (simp only: diff_conv_add_uminus [symmetric])
    have "sin_fold (Finite q) = Inr (Finite r)"
      using False by (simp add: sin_fold_dy mul conv dy_0 sub in1)
    moreover have "\<bar>u - of_int (\<lceil>u\<rceil> - 1)\<bar> \<le> 1" by linarith
    ultimately show ?thesis
      using mul r False by (intro that [of u "\<lceil>u\<rceil> - 1" r]) simp_all
  qed
qed

text \<open>
  C3, as amended: for every finite \<open>x\<close> with \<open>\<bar>x\<bar> \<le> 10\<^sup>8\<close> the folded position \<open>in\<close> lies in
  the closed interval \<open>[0, 1]\<close>; it is below 1 when \<open>x \<ge> 0\<close> and above 0 when \<open>x < 0\<close>.
\<close>

theorem sin_fold_range:
  assumes "is_finite (Finite q)" and "\<bar>q\<bar> \<le> 10 ^ 8"
  shows "\<exists>r. sin_fold (Finite q) = Inr (Finite r) \<and> 0 \<le> r \<and> r \<le> 1
           \<and> (0 \<le> q \<longrightarrow> r < 1) \<and> (q < 0 \<longrightarrow> 0 < r)"
proof -
  obtain u n r where "sin_fold (Finite q) = Inr (Finite r)" "0 \<le> r" "r \<le> 1"
    "0 \<le> q \<longrightarrow> r < 1" "q < 0 \<longrightarrow> 0 < r"
    using assms(2) by (rule sin_fold_detail)
  then show ?thesis by blast
qed

theorem sin_fold_range_witness:
  "is_finite (Finite (- (1 / 2 ^ 30))) \<and> \<bar>- (1 / 2 ^ 30) :: rat\<bar> \<le> 10 ^ 8
   \<and> (\<exists>r. sin_fold (Finite (- (1 / 2 ^ 30))) = Inr (Finite r) \<and> 0 \<le> r \<and> r \<le> 1
           \<and> (0 \<le> (- (1 / 2 ^ 30) :: rat) \<longrightarrow> r < 1)
           \<and> ((- (1 / 2 ^ 30) :: rat) < 0 \<longrightarrow> 0 < r))"
  using sin_fold_range [of "- (1 / 2 ^ 30)"] input_is_finite by simp

section \<open>The blending weights\<close>

lemma sin_weights_half:
  "sin_weights (Finite (dy 1 (- 1))) =
     (Finite (dy (- 8388609) (- 27)), Finite (dy 9 (- 4)), Finite (dy 9 (- 4)),
      Finite (dy (- 1) (- 4)))"
  by (simp add: sin_weights_dy cubic_weights_def dy_eq_iff f32_eval)

text \<open>
  C4. The claim: the routine's sequence of multiply-adds, with the constants \<^verbatim>\<open>0.5f\<close>,
  \<^verbatim>\<open>0.166666667f\<close> and \<^verbatim>\<open>0.3333333333333f\<close>, computes exactly the four polynomials of
  the specification. In single precision it does not: at \<open>fract = 1/2\<close> the routine's
  \<open>wa\<close> is \<open>-8388609 / 2\<^sup>2\<^sup>7\<close>, the polynomial's value is \<open>-1/16\<close>.
\<close>

theorem sin_weights_differ_at_half:
  "sin_weights (Finite (1 / 2)) =
     (Finite (- (8388609 / 134217728)), Finite (9 / 16), Finite (9 / 16), Finite (- (1 / 16)))
   \<and> spec_weights (1 / 2) = (- (1 / 16), 9 / 16, 9 / 16, - (1 / 16))"
proof -
  have "sin_weights (Finite (1 / 2)) =
      (Finite (- (8388609 / 134217728)), Finite (9 / 16), Finite (9 / 16), Finite (- (1 / 16)))"
    using sin_weights_half by (simp add: dy_def)
  moreover have "spec_weights (1 / 2) = (- (1 / 16), 9 / 16, 9 / 16, - (1 / 16))"
    by (simp add: spec_weights_def power_divide)
  ultimately show ?thesis by (rule conjI)
qed

subsection \<open>Rounding errors\<close>

lemma round_step:
  assumes "\<bar>q\<bar> \<le> 2 powi k" and "- 125 \<le> k" and "k \<le> 127" and "\<bar>q - v\<bar> \<le> d"
  obtains r where "round_f32 q = Finite r" and "\<bar>r\<bar> \<le> 2 powi k"
    and "\<bar>r - v\<bar> \<le> d + 2 powi (k - 24)"
proof -
  obtain r where r: "round_f32 q = Finite r" "\<bar>r\<bar> \<le> 2 powi k"
    "\<bar>r - q\<bar> \<le> 2 powi (f32_exp q) / 2"
    using assms(1) by (rule round_f32_bounded) (use assms(2,3) in simp_all)
  have "\<bar>r - q\<bar> \<le> 2 powi (k - 24)"
  proof (cases "q = 0")
    case True
    then show ?thesis using r(1) by (simp add: round_f32_def)
  next
    case False
    then have "ilog2 \<bar>q\<bar> \<le> k" using assms(1) by (intro ilog2_le) simp_all
    then have "f32_exp q \<le> k - 23" using assms(2) by (simp add: f32_exp_def)
    then have "(2::rat) powi (f32_exp q) \<le> 2 powi (k - 23)" by (simp only: two_powi_le_iff)
    also have "\<dots> = 2 * 2 powi (k - 24)"
      using power_int_add [of "2::rat" 1 "k - 24"] by simp
    finally show ?thesis using r(3) by simp
  qed
  then have "\<bar>r - v\<bar> \<le> d + 2 powi (k - 24)" using assms(4) by linarith
  with r(1,2) show ?thesis by (rule that)
qed

lemma mult_err:
  fixes a b a' b' :: rat
  assumes "\<bar>a - a'\<bar> \<le> ea" and "\<bar>b - b'\<bar> \<le> eb" and "\<bar>a'\<bar> \<le> A" and "\<bar>b\<bar> \<le> B"
  shows "\<bar>a * b - a' * b'\<bar> \<le> ea * B + A * eb"
proof -
  have "a * b - a' * b' = (a - a') * b + a' * (b - b')" by (simp add: algebra_simps)
  then have "\<bar>a * b - a' * b'\<bar> \<le> \<bar>a - a'\<bar> * \<bar>b\<bar> + \<bar>a'\<bar> * \<bar>b - b'\<bar>"
    by (simp add: abs_mult [symmetric])
  also have "\<dots> \<le> ea * B + A * eb"
    using assms by (intro add_mono mult_mono) (auto intro: order_trans [OF abs_ge_zero])
  finally show ?thesis .
qed

lemma mult_bound:
  fixes a b :: rat
  assumes "\<bar>a\<bar> \<le> A" and "\<bar>b\<bar> \<le> B"
  shows "\<bar>a * b\<bar> \<le> A * B"
  unfolding abs_mult using assms by (intro mult_mono) (auto intro: order_trans [OF abs_ge_zero])

lemma fmul_step:
  assumes "\<bar>a\<bar> \<le> A" and "\<bar>b\<bar> \<le> B" and "A * B \<le> 2 powi k" and "- 125 \<le> k" and "k \<le> 127"
    and "\<bar>a - a'\<bar> \<le> ea" and "\<bar>b - b'\<bar> \<le> eb" and "\<bar>a'\<bar> \<le> A'"
    and "ea * B + A' * eb \<le> d"
  obtains r where "fmul (Finite a) (Finite b) = Finite r" and "\<bar>r\<bar> \<le> 2 powi k"
    and "\<bar>r - a' * b'\<bar> \<le> d + 2 powi (k - 24)"
proof -
  have "\<bar>a * b\<bar> \<le> A * B" using assms(1,2) by (rule mult_bound)
  then have 1: "\<bar>a * b\<bar> \<le> 2 powi k" using assms(3) by simp
  have "\<bar>a * b - a' * b'\<bar> \<le> ea * B + A' * eb"
    using assms(6,7,8,2) by (rule mult_err)
  then have 2: "\<bar>a * b - a' * b'\<bar> \<le> d" using assms(9) by simp
  obtain r where "round_f32 (a * b) = Finite r" "\<bar>r\<bar> \<le> 2 powi k"
    "\<bar>r - a' * b'\<bar> \<le> d + 2 powi (k - 24)"
    using 1 assms(4,5) 2 by (rule round_step)
  then show ?thesis by (intro that [of r]) simp_all
qed

lemma fadd_step:
  assumes "\<bar>a\<bar> \<le> A" and "\<bar>b\<bar> \<le> B" and "A + B \<le> 2 powi k" and "- 125 \<le> k" and "k \<le> 127"
    and "\<bar>a - a'\<bar> \<le> ea" and "\<bar>b - b'\<bar> \<le> eb" and "ea + eb \<le> d"
  obtains r where "fadd (Finite a) (Finite b) = Finite r" and "\<bar>r\<bar> \<le> 2 powi k"
    and "\<bar>r - (a' + b')\<bar> \<le> d + 2 powi (k - 24)"
proof -
  have 1: "\<bar>a + b\<bar> \<le> 2 powi k" using assms(1,2,3) by linarith
  have 2: "\<bar>a + b - (a' + b')\<bar> \<le> d" using assms(6,7,8) by linarith
  obtain r where "round_f32 (a + b) = Finite r" "\<bar>r\<bar> \<le> 2 powi k"
    "\<bar>r - (a' + b')\<bar> \<le> d + 2 powi (k - 24)"
    using 1 assms(4,5) 2 by (rule round_step)
  then show ?thesis by (intro that [of r]) simp_all
qed

lemma fsub_step:
  assumes "\<bar>a\<bar> \<le> A" and "\<bar>b\<bar> \<le> B" and "A + B \<le> 2 powi k" and "- 125 \<le> k" and "k \<le> 127"
    and "\<bar>a - a'\<bar> \<le> ea" and "\<bar>b - b'\<bar> \<le> eb" and "ea + eb \<le> d"
  obtains r where "fsub (Finite a) (Finite b) = Finite r" and "\<bar>r\<bar> \<le> 2 powi k"
    and "\<bar>r - (a' - b')\<bar> \<le> d + 2 powi (k - 24)"
proof -
  have 1: "\<bar>a + - b\<bar> \<le> 2 powi k" using assms(1,2,3) by linarith
  have 2: "\<bar>a + - b - (a' - b')\<bar> \<le> d" using assms(6,7,8) by linarith
  obtain r where "round_f32 (a + - b) = Finite r" "\<bar>r\<bar> \<le> 2 powi k"
    "\<bar>r - (a' - b')\<bar> \<le> d + 2 powi (k - 24)"
    using 1 assms(4,5) 2 by (rule round_step)
  then show ?thesis by (intro that [of r]) (simp_all add: fsub_def)
qed

lemma const_half: "dy 1 (- 1) = 1 / 2" and const_one: "dy 1 0 = 1"
  and const_sixth: "\<bar>dy 11184811 (- 26) - 1 / 6\<bar> \<le> 1 / 2 ^ 27" "\<bar>dy 11184811 (- 26)\<bar> \<le> 1 / 4"
  and const_third: "\<bar>dy 11184811 (- 25) - 1 / 3\<bar> \<le> 1 / 2 ^ 26" "\<bar>dy 11184811 (- 25)\<bar> \<le> 1 / 2"
  by (simp_all add: dy_def)

lemma sin_weights_err:
  assumes "0 \<le> f" and "f \<le> 1"
  obtains wa wb wc wd where
    "sin_weights (Finite f) = (Finite wa, Finite wb, Finite wc, Finite wd)"
    and "\<bar>wa - (f * f * (1 / 2) - f * (1 / 3) - f * (1 / 6) * (f * f))\<bar> \<le> 45 / 2 ^ 27"
    and "\<bar>wb - (f * (1 / 2) * (f * f) - f * f + (1 - f * (1 / 2)))\<bar> \<le> 22 / 2 ^ 25"
    and "\<bar>wc - (f * f * (1 / 2) + f - f * (1 / 2) * (f * f))\<bar> \<le> 17 / 2 ^ 25"
    and "\<bar>wd - (f * (1 / 6) * (f * f) - f * (1 / 6))\<bar> \<le> 14 / 2 ^ 27"
proof -
  have f: "\<bar>f\<bar> \<le> 1" "\<bar>f - f\<bar> \<le> 0" using assms by simp_all
  have h: "\<bar>1 / 2 :: rat\<bar> \<le> 1 / 2" "\<bar>1 / 2 - 1 / 2 :: rat\<bar> \<le> 0" by simp_all
  have o: "\<bar>1 :: rat\<bar> \<le> 1" "\<bar>1 - 1 :: rat\<bar> \<le> 0" by simp_all
  obtain t1 where t1: "fmul (Finite f) (Finite f) = Finite t1" "\<bar>t1\<bar> \<le> 2 powi 0"
    "\<bar>t1 - f * f\<bar> \<le> 0 + 2 powi (0 - 24)"
    using f(1) f(1) _ _ _ f(2) f(2) f(1) by (rule fmul_step [where k = "0" and d = "0"]) simp_all
  obtain t2 where t2: "fmul (Finite f) (Finite (1 / 2)) = Finite t2" "\<bar>t2\<bar> \<le> 2 powi (- 1)"
    "\<bar>t2 - f * (1 / 2)\<bar> \<le> 0 + 2 powi (- 1 - 24)"
    using f(1) h(1) _ _ _ f(2) h(2) f(1) by (rule fmul_step [where k = "- 1" and d = "0"]) simp_all
  obtain t3 where t3: "fmul (Finite f) (Finite (dy 11184811 (- 26))) = Finite t3"
    "\<bar>t3\<bar> \<le> 2 powi (- 2)" "\<bar>t3 - f * (1 / 6)\<bar> \<le> 1 / 2 ^ 27 + 2 powi (- 2 - 24)"
    using f(1) const_sixth(2) _ _ _ f(2) const_sixth(1) f(1) by (rule fmul_step [where k = "- 2" and d = "1 / 2 ^ 27"]) simp_all
  obtain t4 where t4: "fmul (Finite f) (Finite (dy 11184811 (- 25))) = Finite t4"
    "\<bar>t4\<bar> \<le> 2 powi (- 1)" "\<bar>t4 - f * (1 / 3)\<bar> \<le> 1 / 2 ^ 26 + 2 powi (- 1 - 24)"
    using f(1) const_third(2) _ _ _ f(2) const_third(1) f(1) by (rule fmul_step [where k = "- 1" and d = "1 / 2 ^ 26"]) simp_all
  have ff: "\<bar>f * f\<bar> \<le> 1" using mult_bound [OF f(1) f(1)] by simp
  have f2: "\<bar>f * (1 / 2)\<bar> \<le> 1 / 2" using mult_bound [OF f(1) h(1)] by simp
  have f6: "\<bar>f * (1 / 6)\<bar> \<le> 1 / 6" using mult_bound [OF f(1), of "1 / 6" "1 / 6"] by simp
  have b1: "\<bar>t1\<bar> \<le> 1" and e1: "\<bar>t1 - f * f\<bar> \<le> 1 / 2 ^ 24" using t1(2,3) by simp_all
  have b2: "\<bar>t2\<bar> \<le> 1 / 2" and e2: "\<bar>t2 - f * (1 / 2)\<bar> \<le> 1 / 2 ^ 25" using t2(2,3) by simp_all
  have b3: "\<bar>t3\<bar> \<le> 1 / 4" and e3: "\<bar>t3 - f * (1 / 6)\<bar> \<le> 3 / 2 ^ 27" using t3(2,3) by simp_all
  have b4: "\<bar>t4\<bar> \<le> 1 / 2" and e4: "\<bar>t4 - f * (1 / 3)\<bar> \<le> 3 / 2 ^ 26" using t4(2,3) by simp_all
  obtain t5 where t5: "fmul (Finite t1) (Finite (1 / 2)) = Finite t5" "\<bar>t5\<bar> \<le> 2 powi (- 1)"
    "\<bar>t5 - f * f * (1 / 2)\<bar> \<le> 1 / 2 ^ 25 + 2 powi (- 1 - 24)"
    using b1 h(1) _ _ _ e1 h(2) ff by (rule fmul_step [where k = "- 1" and d = "1 / 2 ^ 25"]) simp_all
  obtain t6 where t6: "fmul (Finite t2) (Finite t1) = Finite t6" "\<bar>t6\<bar> \<le> 2 powi (- 1)"
    "\<bar>t6 - f * (1 / 2) * (f * f)\<bar> \<le> 1 / 2 ^ 24 + 2 powi (- 1 - 24)"
    using b2 b1 _ _ _ e2 e1 f2 by (rule fmul_step [where k = "- 1" and d = "1 / 2 ^ 24"]) simp_all
  obtain t7 where t7: "fmul (Finite t3) (Finite t1) = Finite t7" "\<bar>t7\<bar> \<le> 2 powi (- 2)"
    "\<bar>t7 - f * (1 / 6) * (f * f)\<bar> \<le> 5 / 2 ^ 27 + 2 powi (- 2 - 24)"
    using b3 b1 _ _ _ e3 e1 f6 by (rule fmul_step [where k = "- 2" and d = "5 / 2 ^ 27"]) simp_all
  obtain t8 where t8: "fsub (Finite 1) (Finite t2) = Finite t8" "\<bar>t8\<bar> \<le> 2 powi 1"
    "\<bar>t8 - (1 - f * (1 / 2))\<bar> \<le> 1 / 2 ^ 25 + 2 powi (1 - 24)"
    using o(1) b2 _ _ _ o(2) e2 by (rule fsub_step [where k = "1" and d = "1 / 2 ^ 25"]) simp_all
  have b5: "\<bar>t5\<bar> \<le> 1 / 2" and e5: "\<bar>t5 - f * f * (1 / 2)\<bar> \<le> 1 / 2 ^ 24" using t5(2,3) by simp_all
  have b6: "\<bar>t6\<bar> \<le> 1 / 2" and e6: "\<bar>t6 - f * (1 / 2) * (f * f)\<bar> \<le> 3 / 2 ^ 25"
    using t6(2,3) by simp_all
  have b7: "\<bar>t7\<bar> \<le> 1 / 4" and e7: "\<bar>t7 - f * (1 / 6) * (f * f)\<bar> \<le> 7 / 2 ^ 27"
    using t7(2,3) by simp_all
  have b8: "\<bar>t8\<bar> \<le> 2" and e8: "\<bar>t8 - (1 - f * (1 / 2))\<bar> \<le> 5 / 2 ^ 25" using t8(2,3) by simp_all
  obtain wb0 where wb0: "fsub (Finite t5) (Finite t4) = Finite wb0" "\<bar>wb0\<bar> \<le> 2 powi 0"
    "\<bar>wb0 - (f * f * (1 / 2) - f * (1 / 3))\<bar> \<le> 7 / 2 ^ 26 + 2 powi (0 - 24)"
    using b5 b4 _ _ _ e5 e4 by (rule fsub_step [where k = "0" and d = "7 / 2 ^ 26"]) simp_all
  obtain wc0 where wc0: "fadd (Finite t5) (Finite f) = Finite wc0" "\<bar>wc0\<bar> \<le> 2 powi 1"
    "\<bar>wc0 - (f * f * (1 / 2) + f)\<bar> \<le> 1 / 2 ^ 24 + 2 powi (1 - 24)"
    using b5 f(1) _ _ _ e5 f(2) by (rule fadd_step [where k = "1" and d = "1 / 2 ^ 24"]) simp_all
  have bb0: "\<bar>wb0\<bar> \<le> 1" and eb0: "\<bar>wb0 - (f * f * (1 / 2) - f * (1 / 3))\<bar> \<le> 11 / 2 ^ 26"
    using wb0(2,3) by simp_all
  have bc0: "\<bar>wc0\<bar> \<le> 2" and ec0: "\<bar>wc0 - (f * f * (1 / 2) + f)\<bar> \<le> 3 / 2 ^ 24"
    using wc0(2,3) by simp_all
  obtain wa where wa: "fsub (Finite wb0) (Finite t7) = Finite wa" "\<bar>wa\<bar> \<le> 2 powi 1"
    "\<bar>wa - (f * f * (1 / 2) - f * (1 / 3) - f * (1 / 6) * (f * f))\<bar> \<le> 29 / 2 ^ 27 + 2 powi (1 - 24)"
    using bb0 b7 _ _ _ eb0 e7 by (rule fsub_step [where k = "1" and d = "29 / 2 ^ 27"]) simp_all
  obtain wb1 where wb1: "fsub (Finite t6) (Finite t1) = Finite wb1" "\<bar>wb1\<bar> \<le> 2 powi 1"
    "\<bar>wb1 - (f * (1 / 2) * (f * f) - f * f)\<bar> \<le> 5 / 2 ^ 25 + 2 powi (1 - 24)"
    using b6 b1 _ _ _ e6 e1 by (rule fsub_step [where k = "1" and d = "5 / 2 ^ 25"]) simp_all
  obtain wc where wc: "fsub (Finite wc0) (Finite t6) = Finite wc" "\<bar>wc\<bar> \<le> 2 powi 2"
    "\<bar>wc - (f * f * (1 / 2) + f - f * (1 / 2) * (f * f))\<bar> \<le> 9 / 2 ^ 25 + 2 powi (2 - 24)"
    using bc0 b6 _ _ _ ec0 e6 by (rule fsub_step [where k = "2" and d = "9 / 2 ^ 25"]) simp_all
  obtain wd where wd: "fsub (Finite t7) (Finite t3) = Finite wd" "\<bar>wd\<bar> \<le> 2 powi (- 1)"
    "\<bar>wd - (f * (1 / 6) * (f * f) - f * (1 / 6))\<bar> \<le> 10 / 2 ^ 27 + 2 powi (- 1 - 24)"
    using b7 b3 _ _ _ e7 e3 by (rule fsub_step [where k = "- 1" and d = "10 / 2 ^ 27"]) simp_all
  have bb1: "\<bar>wb1\<bar> \<le> 2" and eb1: "\<bar>wb1 - (f * (1 / 2) * (f * f) - f * f)\<bar> \<le> 9 / 2 ^ 25"
    using wb1(2,3) by simp_all
  obtain wb where wb: "fadd (Finite wb1) (Finite t8) = Finite wb" "\<bar>wb\<bar> \<le> 2 powi 2"
    "\<bar>wb - (f * (1 / 2) * (f * f) - f * f + (1 - f * (1 / 2)))\<bar> \<le> 14 / 2 ^ 25 + 2 powi (2 - 24)"
    using bb1 b8 _ _ _ eb1 e8 by (rule fadd_step [where k = "2" and d = "14 / 2 ^ 25"]) simp_all
  have "sin_weights (Finite f) = (Finite wa, Finite wb, Finite wc, Finite wd)"
    unfolding sin_weights_dy cubic_weights_def Let_def const_half const_one
    by (simp only: t1 t2 t3 t4 t5 t6 t7 t8 wb0 wc0 wa wb1 wc wd wb)
  moreover have "\<bar>wa - (f * f * (1 / 2) - f * (1 / 3) - f * (1 / 6) * (f * f))\<bar> \<le> 45 / 2 ^ 27"
    using wa(3) by simp
  moreover have "\<bar>wb - (f * (1 / 2) * (f * f) - f * f + (1 - f * (1 / 2)))\<bar> \<le> 22 / 2 ^ 25"
    using wb(3) by simp
  moreover have "\<bar>wc - (f * f * (1 / 2) + f - f * (1 / 2) * (f * f))\<bar> \<le> 17 / 2 ^ 25"
    using wc(3) by simp
  moreover have "\<bar>wd - (f * (1 / 6) * (f * f) - f * (1 / 6))\<bar> \<le> 14 / 2 ^ 27"
    using wd(3) by simp
  ultimately show ?thesis by (rule that)
qed

lemma spec_weights_alt:
  "spec_weights f =
     (f * f * (1 / 2) - f * (1 / 3) - f * (1 / 6) * (f * f),
      f * (1 / 2) * (f * f) - f * f + (1 - f * (1 / 2)),
      f * f * (1 / 2) + f - f * (1 / 2) * (f * f),
      f * (1 / 6) * (f * f) - f * (1 / 6))"
  by (simp add: spec_weights_def power3_eq_cube power2_eq_square algebra_simps)

text \<open>
  C4, as amended: read in exact arithmetic, with the constants \<open>1/2\<close>, \<open>1/6\<close> and \<open>1/3\<close>
  that the three literals approximate, the routine's sequence of multiply-adds computes
  exactly the four polynomials of the specification; in single precision, for every
  \<open>fract\<close> in \<open>[0, 1]\<close>, the four computed weights are finite and within \<open>10\<^sup>-\<^sup>6\<close> of the
  polynomials' values.
\<close>

theorem cubic_weights_refine:
  "cubic_weights (*) (+) (-) 1 (1 / 2) (1 / 6) (1 / 3) fract = spec_weights fract
   \<and> (0 \<le> fract \<and> fract \<le> 1 \<longrightarrow>
        (\<exists>wa wb wc wd sa sb sc sd.
            sin_weights (Finite fract) = (Finite wa, Finite wb, Finite wc, Finite wd)
            \<and> spec_weights fract = (sa, sb, sc, sd)
            \<and> \<bar>wa - sa\<bar> \<le> 1 / 10 ^ 6 \<and> \<bar>wb - sb\<bar> \<le> 1 / 10 ^ 6
            \<and> \<bar>wc - sc\<bar> \<le> 1 / 10 ^ 6 \<and> \<bar>wd - sd\<bar> \<le> 1 / 10 ^ 6))"
proof (intro conjI impI)
  show "cubic_weights (*) (+) (-) 1 (1 / 2) (1 / 6) (1 / 3) fract = spec_weights fract"
    by (simp add: cubic_weights_def spec_weights_alt Let_def)
next
  assume "0 \<le> fract \<and> fract \<le> 1"
  then obtain wa wb wc wd where
    w: "sin_weights (Finite fract) = (Finite wa, Finite wb, Finite wc, Finite wd)"
    and e: "\<bar>wa - (fract * fract * (1 / 2) - fract * (1 / 3) - fract * (1 / 6) * (fract * fract))\<bar>
          \<le> 45 / 2 ^ 27"
      "\<bar>wb - (fract * (1 / 2) * (fract * fract) - fract * fract + (1 - fract * (1 / 2)))\<bar>
          \<le> 22 / 2 ^ 25"
      "\<bar>wc - (fract * fract * (1 / 2) + fract - fract * (1 / 2) * (fract * fract))\<bar> \<le> 17 / 2 ^ 25"
      "\<bar>wd - (fract * (1 / 6) * (fract * fract) - fract * (1 / 6))\<bar> \<le> 14 / 2 ^ 27"
    using sin_weights_err [of fract] by blast
  have n: "(45::rat) / 2 ^ 27 \<le> 1 / 10 ^ 6" "(22::rat) / 2 ^ 25 \<le> 1 / 10 ^ 6"
    "(17::rat) / 2 ^ 25 \<le> 1 / 10 ^ 6" "(14::rat) / 2 ^ 27 \<le> 1 / 10 ^ 6"
    by simp_all
  show "\<exists>wa wb wc wd sa sb sc sd.
      sin_weights (Finite fract) = (Finite wa, Finite wb, Finite wc, Finite wd)
      \<and> spec_weights fract = (sa, sb, sc, sd)
      \<and> \<bar>wa - sa\<bar> \<le> 1 / 10 ^ 6 \<and> \<bar>wb - sb\<bar> \<le> 1 / 10 ^ 6
      \<and> \<bar>wc - sc\<bar> \<le> 1 / 10 ^ 6 \<and> \<bar>wd - sd\<bar> \<le> 1 / 10 ^ 6"
    unfolding spec_weights_alt w
    using order_trans [OF e(1) n(1)] order_trans [OF e(2) n(2)]
      order_trans [OF e(3) n(3)] order_trans [OF e(4) n(4)]
    by blast
qed

theorem cubic_weights_refine_witness:
  "cubic_weights (*) (+) (-) 1 (1 / 2) (1 / 6) (1 / 3) (1 / 2) = spec_weights (1 / 2)
   \<and> (0::rat) \<le> 1 / 2 \<and> (1 / 2 :: rat) \<le> 1
   \<and> (\<exists>wa wb wc wd sa sb sc sd.
          sin_weights (Finite (1 / 2)) = (Finite wa, Finite wb, Finite wc, Finite wd)
          \<and> spec_weights (1 / 2) = (sa, sb, sc, sd)
          \<and> \<bar>wa - sa\<bar> \<le> 1 / 10 ^ 6 \<and> \<bar>wb - sb\<bar> \<le> 1 / 10 ^ 6
          \<and> \<bar>wc - sc\<bar> \<le> 1 / 10 ^ 6 \<and> \<bar>wd - sd\<bar> \<le> 1 / 10 ^ 6)"
  using cubic_weights_refine [of "1 / 2"] by simp

section \<open>Symmetry\<close>

lemma arm_sin_f32_tiny_positive:
  "arm_sin_f32 (Finite (dy 1 (- 30))) = Inr (Finite (dy 8388607 (- 53)))"
  by (simp add: routine_eval sinTable_0 sinTable_1 sinTable_2 sinTable_3)

text \<open>
  C8. The claim: for every finite \<open>x\<close> the results at \<open>-x\<close> and at \<open>x\<close> are opposite up to
  the error bound. At the finite input \<open>x = 2\<^sup>-\<^sup>3\<^sup>0\<close> the routine returns \<open>8388607 / 2\<^sup>5\<^sup>3\<close>, and
  at \<open>-x\<close> it returns nothing: it reads outside the table.
\<close>

theorem arm_sin_f32_not_odd_at_tiny:
  "is_finite (Finite (1 / 2 ^ 30))
   \<and> arm_sin_f32 (Finite (1 / 2 ^ 30)) = Inr (Finite (8388607 / 2 ^ 53))
   \<and> arm_sin_f32 (fneg (Finite (1 / 2 ^ 30))) = Inl TableOutOfBounds"
proof -
  have x: "Finite (1 / 2 ^ 30) = Finite (dy 1 (- 30))"
    and y: "fneg (Finite (1 / 2 ^ 30)) = Finite (dy (- 1) (- 30))"
    and r: "Finite (8388607 / 2 ^ 53) = Finite (dy 8388607 (- 53))"
    by (simp_all add: dy_def)
  have "is_finite (Finite (1 / 2 ^ 30))"
    unfolding x by (rule is_finite_dy) simp_all
  moreover have "arm_sin_f32 (Finite (1 / 2 ^ 30)) = Inr (Finite (8388607 / 2 ^ 53))"
    unfolding x r by (rule arm_sin_f32_tiny_positive)
  moreover have "arm_sin_f32 (fneg (Finite (1 / 2 ^ 30))) = Inl TableOutOfBounds"
    unfolding y by (rule arm_sin_f32_tiny_negative)
  ultimately show ?thesis by (intro conjI)
qed

section \<open>Bounds on \<open>\<pi>\<close>\<close>

text \<open>Partial sums of the alternating series of the inverse tangent enclose it.\<close>

lemma arctan_partial_sums:
  fixes x :: real
  assumes "0 \<le> x" and "x \<le> 1"
  shows "(\<Sum>i<2 * n. (- 1) ^ i * (1 / real (i * 2 + 1) * x ^ (i * 2 + 1))) \<le> arctan x"
    and "arctan x \<le> (\<Sum>i<2 * n + 1. (- 1) ^ i * (1 / real (i * 2 + 1) * x ^ (i * 2 + 1)))"
proof -
  let ?a = "\<lambda>n. 1 / real (n * 2 + 1) * x ^ (n * 2 + 1)"
  have x: "\<bar>x\<bar> \<le> 1" using assms by simp
  have zero: "?a \<longlonglongrightarrow> 0" using x by (rule zeroseq_arctan_series)
  have pos: "0 \<le> ?a n" for n using assms by simp
  have mono: "?a (Suc n) \<le> ?a n" for n
  proof -
    have "x ^ (Suc n * 2 + 1) \<le> x ^ (n * 2 + 1)"
      using assms by (intro power_decreasing) simp_all
    moreover have "1 / real (Suc n * 2 + 1) \<le> 1 / real (n * 2 + 1)"
      by (intro divide_left_mono) simp_all
    ultimately show ?thesis
      using assms by (intro mult_mono) simp_all
  qed
  have s: "arctan x = (\<Sum>k. (- 1) ^ k * ?a k)" using x by (rule arctan_series)
  show "(\<Sum>i<2 * n. (- 1) ^ i * ?a i) \<le> arctan x"
    unfolding s using zero pos mono by (rule summable_Leibniz'(2))
  show "arctan x \<le> (\<Sum>i<2 * n + 1. (- 1) ^ i * ?a i)"
    unfolding s using zero pos mono by (rule summable_Leibniz'(4))
qed

lemma arctan_fifth_bounds:
  "1973955598 / 10 ^ 10 \<le> arctan (1 / 5)" "arctan (1 / 5) \<le> 1973955599 / 10 ^ 10"
proof -
  have "(\<Sum>i<2 * 4. (- 1) ^ i * (1 / real (i * 2 + 1) * (1 / 5) ^ (i * 2 + 1))) \<le> arctan (1 / 5)"
    by (rule arctan_partial_sums) simp_all
  then have "271352630414872 / 1374664306640625 \<le> arctan (1 / 5)"
    by (simp add: eval_nat_numeral)
  then show "1973955598 / 10 ^ 10 \<le> arctan (1 / 5)" by simp
  have "arctan (1 / 5) \<le> (\<Sum>i<2 * 3 + 1. (- 1) ^ i * (1 / real (i * 2 + 1) * (1 / 5) ^ (i * 2 + 1)))"
    by (rule arctan_partial_sums) simp_all
  then have "arctan (1 / 5) \<le> 2170821043343 / 10997314453125"
    by (simp add: eval_nat_numeral)
  then show "arctan (1 / 5) \<le> 1973955599 / 10 ^ 10" by simp
qed

lemma arctan_239_bounds:
  "41840760 / 10 ^ 10 \<le> arctan (1 / 239)" "arctan (1 / 239) \<le> 41840761 / 10 ^ 10"
proof -
  have "(\<Sum>i<2 * 1. (- 1) ^ i * (1 / real (i * 2 + 1) * (1 / 239) ^ (i * 2 + 1)))
      \<le> arctan (1 / 239)"
    by (rule arctan_partial_sums) simp_all
  then have "171362 / 40955757 \<le> arctan (1 / 239)"
    by (simp add: eval_nat_numeral)
  then show "41840760 / 10 ^ 10 \<le> arctan (1 / 239)" by simp
  have "arctan (1 / 239)
      \<le> (\<Sum>i<2 * 1 + 1. (- 1) ^ i * (1 / real (i * 2 + 1) * (1 / 239) ^ (i * 2 + 1)))"
    by (rule arctan_partial_sums) simp_all
  then have "arctan (1 / 239) \<le> 48941844013 / 11697168977985"
    by (simp add: eval_nat_numeral)
  then show "arctan (1 / 239) \<le> 41840761 / 10 ^ 10" by simp
qed

lemma pi_bounds: "314159265 / 10 ^ 8 < pi" "pi < 314159266 / 10 ^ 8"
proof -
  have "pi = 16 * arctan (1 / 5) - 4 * arctan (1 / 239)"
    using machin by simp
  then show "314159265 / 10 ^ 8 < pi" "pi < 314159266 / 10 ^ 8"
    using arctan_fifth_bounds arctan_239_bounds by simp_all
qed

section \<open>The table against the sine\<close>

lemma all_from_nth:
  "all_from P j xs \<Longrightarrow> i < length xs \<Longrightarrow> P (j + int i) (xs ! i)"
proof (induction xs arbitrary: i j)
  case Nil
  then show ?case by simp
next
  case (Cons x xs)
  show ?case
  proof (cases i)
    case 0
    then show ?thesis using Cons.prems by simp
  next
    case (Suc n)
    then have "P (j + 1 + int n) (xs ! n)" using Cons.prems by (intro Cons.IH) simp_all
    then show ?thesis using Suc by (simp add: add.assoc)
  qed
qed

lemma sum14:
  fixes f :: "nat \<Rightarrow> real"
  shows "(\<Sum>m<14. f m) =
    f 0 + f 1 + f 2 + f 3 + f 4 + f 5 + f 6 + f 7 + f 8 + f 9 + f 10 + f 11 + f 12 + f 13"
  by (simp add: eval_nat_numeral)

lemma sin_poly_sum: "(\<Sum>m<14. sin_coeff m * x ^ m) = sin_poly x"
proof -
  have "(\<Sum>m<14. sin_coeff m * x ^ m) =
      x - x ^ 3 / 6 + x ^ 5 / 120 - x ^ 7 / 5040 + x ^ 9 / 362880 - x ^ 11 / 39916800
        + x ^ 13 / 6227020800"
    unfolding sum14 by (simp add: sin_coeff_def fact_numeral)
  also have "\<dots> = sin_poly x"
    by (simp add: sin_poly_def Let_def eval_nat_numeral field_simps)
  finally show ?thesis .
qed

lemma sinTable_lit_q1:
  "all_from (\<lambda>j q. \<bar>sin_poly (355 * of_int j / 14464) - q\<bar> \<le> 8 / 10 ^ 8) 0
     (take 13 (drop 1 sinTable_lit))"
  unfolding sinTable_lit_def sin_poly_def Let_def by simp

lemma sinTable_lit_q2:
  "all_from (\<lambda>j q. \<bar>sin_poly (355 * of_int j / 14464) - q\<bar> \<le> 8 / 10 ^ 8) 13
     (take 13 (drop 14 sinTable_lit))"
  unfolding sinTable_lit_def sin_poly_def Let_def by simp

lemma sinTable_lit_q3:
  "all_from (\<lambda>j q. \<bar>sin_poly (355 * of_int j / 14464) - q\<bar> \<le> 8 / 10 ^ 8) 26
     (take 13 (drop 27 sinTable_lit))"
  unfolding sinTable_lit_def sin_poly_def Let_def by simp

lemma sinTable_lit_q4:
  "all_from (\<lambda>j q. \<bar>sin_poly (355 * of_int j / 14464) - q\<bar> \<le> 8 / 10 ^ 8) 39
     (take 13 (drop 40 sinTable_lit))"
  unfolding sinTable_lit_def sin_poly_def Let_def by simp

lemma sinTable_lit_q5:
  "all_from (\<lambda>j q. \<bar>sin_poly (355 * of_int j / 14464) - q\<bar> \<le> 8 / 10 ^ 8) 52
     (take 13 (drop 53 sinTable_lit))"
  unfolding sinTable_lit_def sin_poly_def Let_def by simp

lemma all_from_append:
  "all_from P j (xs @ ys) \<longleftrightarrow> all_from P j xs \<and> all_from P (j + int (length xs)) ys"
  by (induction xs arbitrary: j) (simp_all add: add.assoc)

lemma take_drop_split:
  "take (m + n) (drop k xs) = take m (drop k xs) @ take n (drop (k + m) xs)"
  by (simp add: take_add add.commute)

lemma sinTable_lit_first_quarter:
  "all_from (\<lambda>j q. \<bar>sin_poly (355 * of_int j / 14464) - q\<bar> \<le> 8 / 10 ^ 8) 0
     (take 65 (drop 1 sinTable_lit))"
proof -
  have "take 65 (drop 1 sinTable_lit) =
      take 13 (drop 1 sinTable_lit) @ take 13 (drop 14 sinTable_lit)
        @ take 13 (drop 27 sinTable_lit) @ take 13 (drop 40 sinTable_lit)
        @ take 13 (drop 53 sinTable_lit)"
    using take_drop_split [of 13 52 1 sinTable_lit] take_drop_split [of 13 39 14 sinTable_lit]
      take_drop_split [of 13 26 27 sinTable_lit] take_drop_split [of 13 13 40 sinTable_lit]
    by simp
  then show ?thesis
    using sinTable_lit_q1 sinTable_lit_q2 sinTable_lit_q3 sinTable_lit_q4 sinTable_lit_q5
    by (simp add: all_from_append length_sinTable_lit)
qed

lemma sin_poly_bound:
  fixes x :: real
  assumes "\<bar>x\<bar> \<le> 8 / 5"
  shows "\<bar>sin x - sin_poly x\<bar> \<le> 1 / 10 ^ 8"
proof -
  have "\<bar>sin x - sin_poly x\<bar> \<le> inverse (fact 14) * \<bar>x\<bar> ^ 14"
    using Maclaurin_sin_bound [of x 14] by (simp only: sin_poly_sum)
  also have "\<dots> \<le> inverse (fact 14) * (8 / 5) ^ 14"
    using assms by (intro mult_left_mono power_mono) simp_all
  also have "\<dots> \<le> 1 / 10 ^ 8" by (simp add: fact_numeral power_divide)
  finally show ?thesis .
qed

lemma sin_lipschitz:
  fixes x y :: real
  shows "\<bar>sin x - sin y\<bar> \<le> \<bar>x - y\<bar>"
proof -
  have "\<bar>sin x - sin y\<bar> = 2 * \<bar>sin ((x - y) / 2)\<bar> * \<bar>cos ((x + y) / 2)\<bar>"
    by (simp add: sin_diff_sin abs_mult)
  also have "\<dots> \<le> 2 * \<bar>(x - y) / 2\<bar> * 1"
    by (intro mult_mono mult_left_mono abs_sin_x_le_abs_x) simp_all
  also have "\<dots> = \<bar>x - y\<bar>" by simp
  finally show ?thesis .
qed

lemma pi_near_355_113: "\<bar>pi - 355 / 113\<bar> \<le> 28 / 10 ^ 8"
  using pi_bounds by simp

lemma abs_chain3:
  fixes a b c d :: "'a::linordered_field"
  assumes "\<bar>a - b\<bar> \<le> e1" and "\<bar>b - c\<bar> \<le> e2" and "\<bar>c - d\<bar> \<le> e3"
    and "e1 + e2 + e3 \<le> e"
  shows "\<bar>a - d\<bar> \<le> e"
  using assms by linarith

lemma of_rat_abs_le:
  assumes "\<bar>a - b\<bar> \<le> (e::rat)"
  shows "\<bar>of_rat a - of_rat b\<bar> \<le> (of_rat e :: real)"
  using assms unfolding of_rat_diff [symmetric] abs_of_rat of_rat_less_eq .

lemma of_rat_sin_poly: "of_rat (sin_poly q) = (sin_poly (of_rat q) :: real)"
  by (simp add: sin_poly_def Let_def of_rat_mult of_rat_diff of_rat_divide)

lemma first_quarter_accurate:
  assumes "0 \<le> j" and "j \<le> 64"
  shows "\<bar>of_rat (sinTable_lit ! nat (j + 1)) - sin (pi * of_int j / 128)\<bar> \<le> 23 / 10 ^ 8"
proof -
  define y :: rat where "y = 355 * of_int j / 14464"
  define q where "q = sinTable_lit ! nat (j + 1)"
  have "nat j < length (take 65 (drop 1 sinTable_lit))"
    using assms by (simp add: length_sinTable_lit)
  then have "\<bar>sin_poly (355 * of_int (0 + int (nat j)) / 14464)
      - take 65 (drop 1 sinTable_lit) ! nat j\<bar> \<le> 8 / 10 ^ 8"
    by (rule all_from_nth [OF sinTable_lit_first_quarter])
  moreover have "take 65 (drop 1 sinTable_lit) ! nat j = q"
    using assms by (simp add: q_def length_sinTable_lit nat_add_distrib)
  ultimately have "\<bar>sin_poly y - q\<bar> \<le> 8 / 10 ^ 8" using assms by (simp add: y_def)
  then have "\<bar>of_rat (sin_poly y) - of_rat q\<bar> \<le> (of_rat (8 / 10 ^ 8) :: real)"
    by (rule of_rat_abs_le)
  then have 1: "\<bar>sin_poly (of_rat y) - (of_rat q :: real)\<bar> \<le> 8 / 10 ^ 8"
    by (simp add: of_rat_diff of_rat_sin_poly of_rat_divide of_rat_power)
  have y: "(of_rat y :: real) = 355 * of_int j / 14464"
    by (simp add: y_def of_rat_divide of_rat_mult)
  have "\<bar>(of_rat y :: real)\<bar> \<le> 8 / 5" using assms unfolding y by simp
  then have 2: "\<bar>sin (of_rat y) - sin_poly (of_rat y :: real)\<bar> \<le> 1 / 10 ^ 8"
    by (rule sin_poly_bound)
  have "pi * of_int j / 128 - of_rat y = (pi - 355 / 113) * (of_int j / 128)"
    unfolding y by (simp add: field_simps)
  then have "\<bar>pi * of_int j / 128 - of_rat y\<bar> = \<bar>pi - 355 / 113\<bar> * \<bar>of_int j / 128 :: real\<bar>"
    by (simp only: abs_mult)
  also have "\<dots> = \<bar>pi - 355 / 113\<bar> * (of_int j / 128)"
    using assms by simp
  also have "\<dots> \<le> 28 / 10 ^ 8 * (1 / 2)"
    using assms pi_near_355_113 by (intro mult_mono) simp_all
  finally have "\<bar>pi * of_int j / 128 - of_rat y\<bar> \<le> 14 / 10 ^ 8" by simp
  then have 3: "\<bar>sin (pi * of_int j / 128) - sin (of_rat y)\<bar> \<le> 14 / 10 ^ 8"
    using sin_lipschitz [of "pi * of_int j / 128" "of_rat y"] by linarith
  have 1: "\<bar>of_rat q - sin_poly (of_rat y :: real)\<bar> \<le> 8 / 10 ^ 8"
    using 1 by (simp only: abs_minus_commute)
  have 2: "\<bar>sin_poly (of_rat y :: real) - sin (of_rat y)\<bar> \<le> 1 / 10 ^ 8"
    using 2 by (simp only: abs_minus_commute)
  have 3: "\<bar>sin (of_rat y) - sin (pi * of_int j / 128)\<bar> \<le> 14 / 10 ^ 8"
    using 3 by (simp only: abs_minus_commute)
  show ?thesis unfolding q_def [symmetric] using 1 2 3 by (rule abs_chain3) simp
qed

lemma sinTable_lit_second_quarter:
  "list_all2 (\<lambda>a b. \<bar>a - b\<bar> \<le> 1 / 10 ^ 15)
     (take 64 (drop 66 sinTable_lit)) (rev (take 64 (drop 1 sinTable_lit)))"
  unfolding sinTable_lit_def by simp

lemma sinTable_lit_second_half:
  "list_all2 (\<lambda>a b. \<bar>a + b\<bar> \<le> 1 / 10 ^ 15)
     (take 128 (drop 130 sinTable_lit)) (take 128 (drop 2 sinTable_lit))"
  unfolding sinTable_lit_def by simp

lemma sinTable_lit_guards:
  "sinTable_lit ! 0 = - (sinTable_lit ! 2)" "sinTable_lit ! 258 = sinTable_lit ! 2"
  unfolding sinTable_lit_def by (simp_all only: nth_eval)

lemma abs_diff_neg:
  fixes a b :: "'a::linordered_idom"
  shows "\<bar>- a - - b\<bar> = \<bar>a - b\<bar>"
  by (simp add: abs_minus_commute)

lemma sinTable_lit_first_half:
  assumes "1 \<le> k" and "k \<le> 129"
  shows "\<bar>of_rat (sinTable_lit ! k) - sin (pi * (of_nat k - 1) / 128)\<bar> \<le> 231 / 10 ^ 9"
proof (cases "k \<le> 65")
  case True
  have "\<bar>of_rat (sinTable_lit ! nat (int k - 1 + 1)) - sin (pi * of_int (int k - 1) / 128)\<bar>
      \<le> 23 / 10 ^ 8"
    using assms True by (intro first_quarter_accurate) simp_all
  then have "\<bar>of_rat (sinTable_lit ! k) - sin (pi * (of_nat k - 1) / 128)\<bar> \<le> 23 / 10 ^ 8"
    by simp
  then show ?thesis by simp
next
  case False
  define i where "i = k - 66"
  define j where "j = 129 - k"
  have i: "i < 64" "k = 66 + i" "j = 63 - i" "j + 1 = 64 - i"
    using False assms by (simp_all add: i_def j_def)
  have "i < length (take 64 (drop 66 sinTable_lit))"
    using i(1) by (simp add: length_sinTable_lit)
  then have "\<bar>take 64 (drop 66 sinTable_lit) ! i - rev (take 64 (drop 1 sinTable_lit)) ! i\<bar>
      \<le> 1 / 10 ^ 15"
    by (rule list_all2_nthD [OF sinTable_lit_second_quarter])
  moreover have "take 64 (drop 66 sinTable_lit) ! i = sinTable_lit ! k"
    using i(1,2) by (simp add: length_sinTable_lit)
  moreover have "rev (take 64 (drop 1 sinTable_lit)) ! i = sinTable_lit ! (j + 1)"
    using i(1,3) by (simp add: rev_nth length_sinTable_lit)
  ultimately have "\<bar>sinTable_lit ! k - sinTable_lit ! (j + 1)\<bar> \<le> 1 / 10 ^ 15" by simp
  then have "\<bar>of_rat (sinTable_lit ! k) - of_rat (sinTable_lit ! (j + 1))\<bar>
      \<le> (of_rat (1 / 10 ^ 15) :: real)"
    by (rule of_rat_abs_le)
  then have 1: "\<bar>of_rat (sinTable_lit ! k) - of_rat (sinTable_lit ! (j + 1))\<bar> \<le> (1 / 10 ^ 15 :: real)"
    by (simp add: of_rat_divide of_rat_power)
  have "\<bar>of_rat (sinTable_lit ! nat (int j + 1)) - sin (pi * of_int (int j) / 128)\<bar> \<le> 23 / 10 ^ 8"
    using i(1,3) by (intro first_quarter_accurate) simp_all
  then have 2: "\<bar>of_rat (sinTable_lit ! (j + 1)) - sin (pi * of_nat j / 128)\<bar> \<le> 23 / 10 ^ 8"
    by (simp add: nat_add_distrib)
  have "pi * (of_nat k - 1) / 128 = pi - pi * of_nat j / 128"
    using i(1) unfolding i(2,3) by (simp add: field_simps)
  then have 3: "sin (pi * (of_nat k - 1) / 128) = sin (pi * of_nat j / 128)"
    by (simp only: sin_pi_minus)
  have 4: "\<bar>sin (pi * of_nat j / 128) - sin (pi * of_nat j / 128)\<bar> \<le> 0" by simp
  show ?thesis unfolding 3 using 1 2 4 by (rule abs_chain3) simp
qed

lemma sinTable_lit_accurate:
  assumes "k < 259"
  shows "\<bar>of_rat (sinTable_lit ! k) - sin (pi * (of_nat k - 1) / 128)\<bar> \<le> 24 / 10 ^ 8"
proof -
  consider "k = 0" | "1 \<le> k" "k \<le> 129" | "130 \<le> k" "k \<le> 257" | "k = 258"
    using assms by linarith
  then show ?thesis
  proof cases
    case 1
    have "\<bar>of_rat (sinTable_lit ! 2) - sin (pi * (of_nat 2 - 1) / 128)\<bar> \<le> 231 / 10 ^ 9"
      by (rule sinTable_lit_first_half) simp_all
    then have a: "\<bar>of_rat (sinTable_lit ! 2) - sin (pi / 128)\<bar> \<le> 231 / 10 ^ 9"
      by simp
    have "of_rat (sinTable_lit ! 0) - sin (pi * (of_nat 0 - 1) / 128)
        = - (of_rat (sinTable_lit ! 2) - sin (pi / 128))"
      unfolding sinTable_lit_guards(1) by (simp add: of_rat_minus)
    then have "\<bar>of_rat (sinTable_lit ! 0) - sin (pi * (of_nat 0 - 1) / 128)\<bar>
        = \<bar>of_rat (sinTable_lit ! 2) - sin (pi / 128)\<bar>"
      by (simp only: abs_minus_cancel)
    then have "\<bar>of_rat (sinTable_lit ! 0) - sin (pi * (of_nat 0 - 1) / 128)\<bar> \<le> 231 / 10 ^ 9"
      using a by (simp only:)
    then show ?thesis unfolding 1 by simp
  next
    case 2
    then have "\<bar>of_rat (sinTable_lit ! k) - sin (pi * (of_nat k - 1) / 128)\<bar> \<le> 231 / 10 ^ 9"
      by (rule sinTable_lit_first_half)
    then show ?thesis by simp
  next
    case 3
    define i where "i = k - 130"
    define k' where "k' = k - 128"
    have i: "i < 128" "k = 130 + i" "k' = 2 + i" "1 \<le> k'" "k' \<le> 129"
      using 3 by (simp_all add: i_def k'_def)
    have "i < length (take 128 (drop 130 sinTable_lit))"
      using i(1) by (simp add: length_sinTable_lit)
    then have "\<bar>take 128 (drop 130 sinTable_lit) ! i + take 128 (drop 2 sinTable_lit) ! i\<bar>
        \<le> 1 / 10 ^ 15"
      by (rule list_all2_nthD [OF sinTable_lit_second_half])
    moreover have "take 128 (drop 130 sinTable_lit) ! i = sinTable_lit ! k"
      using i(1,2) by (simp add: length_sinTable_lit)
    moreover have "take 128 (drop 2 sinTable_lit) ! i = sinTable_lit ! k'"
      using i(1,3) by (simp add: length_sinTable_lit)
    ultimately have "\<bar>sinTable_lit ! k - - (sinTable_lit ! k')\<bar> \<le> 1 / 10 ^ 15" by simp
    then have "\<bar>of_rat (sinTable_lit ! k) - of_rat (- (sinTable_lit ! k'))\<bar>
        \<le> (of_rat (1 / 10 ^ 15) :: real)"
      by (rule of_rat_abs_le)
    then have a: "\<bar>of_rat (sinTable_lit ! k) - - of_rat (sinTable_lit ! k')\<bar> \<le> (1 / 10 ^ 15 :: real)"
      by (simp add: of_rat_divide of_rat_power of_rat_minus)
    have "\<bar>of_rat (sinTable_lit ! k') - sin (pi * (of_nat k' - 1) / 128)\<bar> \<le> 231 / 10 ^ 9"
      using i(4,5) by (rule sinTable_lit_first_half)
    then have b: "\<bar>- of_rat (sinTable_lit ! k') - - sin (pi * (of_nat k' - 1) / 128)\<bar> \<le> 231 / 10 ^ 9"
      by (simp only: abs_diff_neg)
    have "pi * (of_nat k - 1) / 128 = pi * (of_nat k' - 1) / 128 + pi"
      unfolding i(2,3) by (simp add: field_simps)
    then have c: "sin (pi * (of_nat k - 1) / 128) = - sin (pi * (of_nat k' - 1) / 128)"
      by (simp only: sin_periodic_pi)
    have d: "\<bar>- sin (pi * (of_nat k' - 1) / 128) - - sin (pi * (of_nat k' - 1) / 128)\<bar> \<le> 0"
      by simp
    show ?thesis unfolding c using a b d by (rule abs_chain3) simp
  next
    case 4
    have "\<bar>of_rat (sinTable_lit ! 2) - sin (pi * (of_nat 2 - 1) / 128)\<bar> \<le> 231 / 10 ^ 9"
      by (rule sinTable_lit_first_half) simp_all
    moreover have "pi * (of_nat 258 - 1) / 128 = pi / 128 + 2 * pi" by (simp add: field_simps)
    then have "sin (pi * (of_nat 258 - 1) / 128) = sin (pi / 128)" by (simp only: sin_periodic)
    ultimately show ?thesis unfolding 4 sinTable_lit_guards(2) by simp
  qed
qed

text \<open>Every entry of the table is a single-precision number of magnitude at most one,
  within \<open>3 * 10\<^sup>-\<^sup>7\<close> of the sine it stands for: entry \<open>k\<close> is \<open>sin (2 pi (k - 1) / 256)\<close>.\<close>

lemma sinTable_accurate:
  assumes "0 \<le> k" and "k < 259"
  obtains t where "sinTable k = Inr (Finite t)" and "round_f32 t = Finite t" and "\<bar>t\<bar> \<le> 1"
    and "\<bar>of_rat t - sin (pi * (of_int k - 1) / 128)\<bar> \<le> 3 / 10 ^ 7"
proof -
  define q where "q = sinTable_lit ! nat k"
  have k: "nat k < 259" using assms by simp
  have "\<bar>q\<bar> \<le> 1" unfolding q_def using k by (rule sinTable_lit_le_one)
  then have q1: "\<bar>q\<bar> \<le> 2 powi 0" by simp
  have q2: "\<bar>q - q\<bar> \<le> 0" by simp
  obtain t where t: "round_f32 q = Finite t" "\<bar>t\<bar> \<le> 2 powi 0"
    "\<bar>t - q\<bar> \<le> 0 + 2 powi (0 - 24)"
    using q1 _ _ q2 by (rule round_step [where k = 0 and d = 0]) simp_all
  have 1: "sinTable k = Inr (Finite t)"
    using assms t(1) by (simp add: sinTable_def f32_lit_def q_def)
  have 2: "round_f32 t = Finite t" using t(1) by (rule round_f32_idem)
  have 3: "\<bar>t\<bar> \<le> 1" using t(2) by simp
  have "\<bar>t - q\<bar> \<le> 1 / 2 ^ 24" using t(3) by simp
  then have "\<bar>of_rat t - of_rat q\<bar> \<le> (of_rat (1 / 2 ^ 24) :: real)" by (rule of_rat_abs_le)
  then have a: "\<bar>of_rat t - of_rat q\<bar> \<le> (1 / 2 ^ 24 :: real)"
    by (simp add: of_rat_divide of_rat_power)
  have "\<bar>of_rat q - sin (pi * (of_nat (nat k) - 1) / 128)\<bar> \<le> 24 / 10 ^ 8"
    unfolding q_def using k by (rule sinTable_lit_accurate)
  then have b: "\<bar>of_rat q - sin (pi * (of_int k - 1) / 128)\<bar> \<le> 24 / 10 ^ 8"
    using assms(1) by simp
  have c: "\<bar>sin (pi * (of_int k - 1) / 128) - sin (pi * (of_int k - 1) / 128)\<bar> \<le> 0" by simp
  have 4: "\<bar>of_rat t - sin (pi * (of_int k - 1) / 128)\<bar> \<le> 3 / 10 ^ 7"
    using a b c by (rule abs_chain3) simp
  from 1 2 3 4 show ?thesis by (rule that)
qed

section \<open>The interpolation in single precision\<close>

text \<open>Bounds on the four blending polynomials on \<open>[0, 1]\<close>.\<close>

lemma spec_wa_bounds:
  fixes f :: "'a::linordered_field"
  assumes "0 \<le> f" and "f \<le> 1"
  shows "- (1 / 8) \<le> f * f * (1 / 2) - f * (1 / 3) - f * (1 / 6) * (f * f)"
    and "f * f * (1 / 2) - f * (1 / 3) - f * (1 / 6) * (f * f) \<le> 0"
proof -
  have e: "f * f * (1 / 2) - f * (1 / 3) - f * (1 / 6) * (f * f) = - (f * (1 - f) * (2 - f) / 6)"
    by (simp add: field_simps)
  have p: "0 \<le> f * (1 - f)" using assms by simp
  have "(f - 1 / 2) * (f - 1 / 2) \<ge> 0" by simp
  then have q: "f * (1 - f) \<le> 1 / 4" by (simp add: algebra_simps)
  have "f * (1 - f) * (2 - f) \<le> 1 / 4 * 2"
    using p q assms by (intro mult_mono) simp_all
  then show "- (1 / 8) \<le> f * f * (1 / 2) - f * (1 / 3) - f * (1 / 6) * (f * f)"
    unfolding e by simp
  have "0 \<le> f * (1 - f) * (2 - f)" using p assms by (intro mult_nonneg_nonneg) simp_all
  then show "f * f * (1 / 2) - f * (1 / 3) - f * (1 / 6) * (f * f) \<le> 0"
    unfolding e by simp
qed

lemma spec_wd_bounds:
  fixes f :: "'a::linordered_field"
  assumes "0 \<le> f" and "f \<le> 1"
  shows "- (1 / 8) \<le> f * (1 / 6) * (f * f) - f * (1 / 6)"
    and "f * (1 / 6) * (f * f) - f * (1 / 6) \<le> 0"
proof -
  have e: "f * (1 / 6) * (f * f) - f * (1 / 6) = - (f * (1 - f) * (1 + f) / 6)"
    by (simp add: field_simps)
  have p: "0 \<le> f * (1 - f)" using assms by simp
  have "(f - 1 / 2) * (f - 1 / 2) \<ge> 0" by simp
  then have q: "f * (1 - f) \<le> 1 / 4" by (simp add: algebra_simps)
  have "f * (1 - f) * (1 + f) \<le> 1 / 4 * 2"
    using p q assms by (intro mult_mono) simp_all
  then show "- (1 / 8) \<le> f * (1 / 6) * (f * f) - f * (1 / 6)"
    unfolding e by simp
  have "0 \<le> f * (1 - f) * (1 + f)" using p assms by (intro mult_nonneg_nonneg) simp_all
  then show "f * (1 / 6) * (f * f) - f * (1 / 6) \<le> 0"
    unfolding e by simp
qed

lemma spec_wb_bounds:
  fixes f :: "'a::linordered_field"
  assumes "0 \<le> f" and "f \<le> 1"
  shows "0 \<le> f * (1 / 2) * (f * f) - f * f + (1 - f * (1 / 2))"
    and "f * (1 / 2) * (f * f) - f * f + (1 - f * (1 / 2)) \<le> 1"
proof -
  have e: "f * (1 / 2) * (f * f) - f * f + (1 - f * (1 / 2)) = (1 - f) * (2 - f) * (1 + f) / 2"
    by (simp add: field_simps)
  have "0 \<le> (1 - f) * (2 - f) * (1 + f)" using assms by (intro mult_nonneg_nonneg) simp_all
  then show "0 \<le> f * (1 / 2) * (f * f) - f * f + (1 - f * (1 / 2))"
    unfolding e by simp
  have e': "1 - (f * (1 / 2) * (f * f) - f * f + (1 - f * (1 / 2))) = f * (1 + f * (2 - f)) / 2"
    by (simp add: field_simps)
  have "0 \<le> f * (1 + f * (2 - f))"
    using assms by (intro mult_nonneg_nonneg add_nonneg_nonneg) simp_all
  then have "0 \<le> 1 - (f * (1 / 2) * (f * f) - f * f + (1 - f * (1 / 2)))"
    unfolding e' by simp
  then show "f * (1 / 2) * (f * f) - f * f + (1 - f * (1 / 2)) \<le> 1" by simp
qed

lemma spec_wc_bounds:
  fixes f :: "'a::linordered_field"
  assumes "0 \<le> f" and "f \<le> 1"
  shows "0 \<le> f * f * (1 / 2) + f - f * (1 / 2) * (f * f)"
    and "f * f * (1 / 2) + f - f * (1 / 2) * (f * f) \<le> 1"
proof -
  have e: "f * f * (1 / 2) + f - f * (1 / 2) * (f * f) = f * (2 - f) * (1 + f) / 2"
    by (simp add: field_simps)
  have "0 \<le> f * (2 - f) * (1 + f)" using assms by (intro mult_nonneg_nonneg) simp_all
  then show "0 \<le> f * f * (1 / 2) + f - f * (1 / 2) * (f * f)"
    unfolding e by simp
  have e': "1 - (f * f * (1 / 2) + f - f * (1 / 2) * (f * f)) = (1 - f) * (1 - f * f / 2)"
    by (simp add: field_simps)
  have "f * f \<le> 1 * 1" using assms by (intro mult_mono) simp_all
  then have "0 \<le> (1 - f) * (1 - f * f / 2)"
    using assms by (intro mult_nonneg_nonneg) simp_all
  then have "0 \<le> 1 - (f * f * (1 / 2) + f - f * (1 / 2) * (f * f))"
    unfolding e' by simp
  then show "f * f * (1 / 2) + f - f * (1 / 2) * (f * f) \<le> 1" by simp
qed

lemma abs_near:
  fixes x y :: "'a::linordered_field"
  assumes "\<bar>x - y\<bar> \<le> e" and "\<bar>y\<bar> \<le> m" and "e + m \<le> M"
  shows "\<bar>x\<bar> \<le> M"
proof -
  have "\<bar>x\<bar> \<le> \<bar>y\<bar> + \<bar>x - y\<bar>" using abs_triangle_ineq [of y "x - y"] by simp
  then show ?thesis using assms by linarith
qed

text \<open>The four products and three sums of the last statement, on weights within the
  bounds of \<open>sin_weights_err\<close> and samples of magnitude at most one.\<close>

lemma interp_sum_err:
  assumes wa: "\<bar>wa - A\<bar> \<le> 45 / 2 ^ 27" and wb: "\<bar>wb - B\<bar> \<le> 22 / 2 ^ 25"
    and wc: "\<bar>wc - C\<bar> \<le> 17 / 2 ^ 25" and wd: "\<bar>wd - D\<bar> \<le> 14 / 2 ^ 27"
    and A: "\<bar>A\<bar> \<le> 1 / 8" and B: "\<bar>B\<bar> \<le> 1" and C: "\<bar>C\<bar> \<le> 1" and D: "\<bar>D\<bar> \<le> 1 / 8"
    and a: "\<bar>a\<bar> \<le> 1" and b: "\<bar>b\<bar> \<le> 1" and c: "\<bar>c\<bar> \<le> 1" and d: "\<bar>d\<bar> \<le> 1"
  obtains s where
    "fadd (fadd (fmul (Finite wa) (Finite a)) (fmul (Finite b) (Finite wb)))
       (fadd (fmul (Finite c) (Finite wc)) (fmul (Finite d) (Finite wd))) = Finite s"
    and "\<bar>s - (A * a + b * B + (c * C + d * D))\<bar> \<le> 379 / 2 ^ 27"
proof -
  have ma: "\<bar>wa\<bar> \<le> 1 / 4" using wa A by (rule abs_near) simp
  have mb: "\<bar>wb\<bar> \<le> 2" using wb B by (rule abs_near) simp
  have mc: "\<bar>wc\<bar> \<le> 2" using wc C by (rule abs_near) simp
  have md: "\<bar>wd\<bar> \<le> 1 / 4" using wd D by (rule abs_near) simp
  have za: "\<bar>a - a\<bar> \<le> 0" and zb: "\<bar>b - b\<bar> \<le> 0" and zc: "\<bar>c - c\<bar> \<le> 0" and zd: "\<bar>d - d\<bar> \<le> 0"
    by simp_all
  obtain p1 where p1: "fmul (Finite wa) (Finite a) = Finite p1" "\<bar>p1\<bar> \<le> 2 powi (- 2)"
    "\<bar>p1 - A * a\<bar> \<le> 45 / 2 ^ 27 + 2 powi (- 2 - 24)"
    using ma a _ _ _ wa za A by (rule fmul_step [where k = "- 2" and d = "45 / 2 ^ 27"]) simp_all
  obtain p2 where p2: "fmul (Finite b) (Finite wb) = Finite p2" "\<bar>p2\<bar> \<le> 2 powi 1"
    "\<bar>p2 - b * B\<bar> \<le> 22 / 2 ^ 25 + 2 powi (1 - 24)"
    using b mb _ _ _ zb wb b by (rule fmul_step [where k = "1" and d = "22 / 2 ^ 25"]) simp_all
  obtain p3 where p3: "fmul (Finite c) (Finite wc) = Finite p3" "\<bar>p3\<bar> \<le> 2 powi 1"
    "\<bar>p3 - c * C\<bar> \<le> 17 / 2 ^ 25 + 2 powi (1 - 24)"
    using c mc _ _ _ zc wc c by (rule fmul_step [where k = "1" and d = "17 / 2 ^ 25"]) simp_all
  obtain p4 where p4: "fmul (Finite d) (Finite wd) = Finite p4" "\<bar>p4\<bar> \<le> 2 powi (- 2)"
    "\<bar>p4 - d * D\<bar> \<le> 14 / 2 ^ 27 + 2 powi (- 2 - 24)"
    using d md _ _ _ zd wd d by (rule fmul_step [where k = "- 2" and d = "14 / 2 ^ 27"]) simp_all
  have b1: "\<bar>p1\<bar> \<le> 1 / 4" and e1: "\<bar>p1 - A * a\<bar> \<le> 47 / 2 ^ 27" using p1(2,3) by simp_all
  have b2: "\<bar>p2\<bar> \<le> 2" and e2: "\<bar>p2 - b * B\<bar> \<le> 104 / 2 ^ 27" using p2(2,3) by simp_all
  have b3: "\<bar>p3\<bar> \<le> 2" and e3: "\<bar>p3 - c * C\<bar> \<le> 84 / 2 ^ 27" using p3(2,3) by simp_all
  have b4: "\<bar>p4\<bar> \<le> 1 / 4" and e4: "\<bar>p4 - d * D\<bar> \<le> 16 / 2 ^ 27" using p4(2,3) by simp_all
  obtain s1 where s1: "fadd (Finite p1) (Finite p2) = Finite s1" "\<bar>s1\<bar> \<le> 2 powi 2"
    "\<bar>s1 - (A * a + b * B)\<bar> \<le> 151 / 2 ^ 27 + 2 powi (2 - 24)"
    using b1 b2 _ _ _ e1 e2 by (rule fadd_step [where k = "2" and d = "151 / 2 ^ 27"]) simp_all
  obtain s2 where s2: "fadd (Finite p3) (Finite p4) = Finite s2" "\<bar>s2\<bar> \<le> 2 powi 2"
    "\<bar>s2 - (c * C + d * D)\<bar> \<le> 100 / 2 ^ 27 + 2 powi (2 - 24)"
    using b3 b4 _ _ _ e3 e4 by (rule fadd_step [where k = "2" and d = "100 / 2 ^ 27"]) simp_all
  have c1: "\<bar>s1\<bar> \<le> 4" and f1: "\<bar>s1 - (A * a + b * B)\<bar> \<le> 183 / 2 ^ 27" using s1(2,3) by simp_all
  have c2: "\<bar>s2\<bar> \<le> 4" and f2: "\<bar>s2 - (c * C + d * D)\<bar> \<le> 132 / 2 ^ 27" using s2(2,3) by simp_all
  obtain s where s: "fadd (Finite s1) (Finite s2) = Finite s" "\<bar>s\<bar> \<le> 2 powi 3"
    "\<bar>s - (A * a + b * B + (c * C + d * D))\<bar> \<le> 315 / 2 ^ 27 + 2 powi (3 - 24)"
    using c1 c2 _ _ _ f1 f2 by (rule fadd_step [where k = "3" and d = "315 / 2 ^ 27"]) simp_all
  have "fadd (fadd (fmul (Finite wa) (Finite a)) (fmul (Finite b) (Finite wb)))
       (fadd (fmul (Finite c) (Finite wc)) (fmul (Finite d) (Finite wd))) = Finite s"
    by (simp only: p1(1) p2(1) p3(1) p4(1) s1(1) s2(1) s(1))
  moreover have "\<bar>s - (A * a + b * B + (c * C + d * D))\<bar> \<le> 379 / 2 ^ 27"
    using s(3) by simp
  ultimately show ?thesis by (rule that)
qed

section \<open>Cubic interpolation of the sine\<close>

lemma sum5:
  fixes f :: "nat \<Rightarrow> real"
  shows "(\<Sum>m<5. f m) = f 0 + f 1 + f 2 + f 3 + f 4"
    and "(\<Sum>m<4. f m) = f 0 + f 1 + f 2 + f 3"
  by (simp_all add: eval_nat_numeral)

lemma cos_taylor:
  fixes d :: real
  shows "\<bar>cos d - (1 - d ^ 2 / 2)\<bar> \<le> \<bar>d\<bar> ^ 4 / 24"
proof -
  have "(\<Sum>m<4. cos_coeff m * d ^ m) = 1 - d ^ 2 / 2"
    unfolding sum5 by (simp add: cos_coeff_def fact_numeral)
  moreover obtain t where
    "cos d = (\<Sum>m<4. cos_coeff m * d ^ m) + cos (t + 1 / 2 * real 4 * pi) / fact 4 * d ^ 4"
    using Maclaurin_cos_expansion [of d 4] by blast
  ultimately have "cos d - (1 - d ^ 2 / 2) = cos (t + 1 / 2 * real 4 * pi) * (d ^ 4 / 24)"
    by (simp add: fact_numeral)
  then have "\<bar>cos d - (1 - d ^ 2 / 2)\<bar> = \<bar>cos (t + 1 / 2 * real 4 * pi)\<bar> * (\<bar>d\<bar> ^ 4 / 24)"
    by (simp only: abs_mult abs_divide power_abs abs_numeral)
  also have "\<dots> \<le> 1 * (\<bar>d\<bar> ^ 4 / 24)"
    by (intro mult_right_mono abs_cos_le_one) simp
  finally show ?thesis by simp
qed

lemma sin_taylor:
  fixes d :: real
  shows "\<bar>sin d - (d - d ^ 3 / 6)\<bar> \<le> \<bar>d\<bar> ^ 5 / 120"
proof -
  have "(\<Sum>m<5. sin_coeff m * d ^ m) = d - d ^ 3 / 6"
    unfolding sum5 by (simp add: sin_coeff_def fact_numeral)
  then show ?thesis
    using Maclaurin_sin_bound [of d 5] by (simp add: fact_numeral)
qed

lemma sin_shift:
  fixes t d :: real
  assumes "\<bar>d\<bar> \<le> 1 / 20"
  shows "\<bar>sin (t + d) - taylor3 (sin t) (cos t) d\<bar> \<le> 27 / 10 ^ 8"
proof -
  define rc where "rc = cos d - (1 - d ^ 2 / 2)"
  define rs where "rs = sin d - (d - d ^ 3 / 6)"
  have "\<bar>d\<bar> ^ 4 \<le> (1 / 20) ^ 4" using assms by (intro power_mono) simp_all
  then have c: "\<bar>rc\<bar> \<le> (1 / 20) ^ 4 / 24"
    using cos_taylor [of d] unfolding rc_def by linarith
  have "\<bar>d\<bar> ^ 5 \<le> (1 / 20) ^ 5" using assms by (intro power_mono) simp_all
  then have s: "\<bar>rs\<bar> \<le> (1 / 20) ^ 5 / 120"
    using sin_taylor [of d] unfolding rs_def by linarith
  have "sin (t + d) - taylor3 (sin t) (cos t) d = sin t * rc + cos t * rs"
    unfolding rc_def rs_def taylor3_def sin_add by (simp add: algebra_simps)
  also have "\<bar>\<dots>\<bar> \<le> \<bar>sin t * rc\<bar> + \<bar>cos t * rs\<bar>" by (rule abs_triangle_ineq)
  also have "\<dots> \<le> 1 * \<bar>rc\<bar> + 1 * \<bar>rs\<bar>"
    unfolding abs_mult by (intro add_mono mult_right_mono) simp_all
  also have "\<dots> \<le> (1 / 20) ^ 4 / 24 + (1 / 20) ^ 5 / 120" using c s by simp
  also have "\<dots> \<le> 27 / 10 ^ 8" by (simp add: power_divide)
  finally show ?thesis .
qed

text \<open>The four weights reproduce every polynomial of degree at most three; hence the
  weighted sum of the four Taylor polynomials at the nodes \<open>-1, 0, 1, 2\<close> is the value at
  the offset \<open>s\<close>.\<close>

lemma cubic_exact:
  fixes s h p c :: real
  shows "(s * s * (1 / 2) - s * (1 / 3) - s * (1 / 6) * (s * s)) * taylor3 p c ((- 1 - s) * h)
     + (s * (1 / 2) * (s * s) - s * s + (1 - s * (1 / 2))) * taylor3 p c ((0 - s) * h)
     + (s * s * (1 / 2) + s - s * (1 / 2) * (s * s)) * taylor3 p c ((1 - s) * h)
     + (s * (1 / 6) * (s * s) - s * (1 / 6)) * taylor3 p c ((2 - s) * h) = p"
  unfolding taylor3_def by (simp add: field_simps power2_eq_square power3_eq_cube)

lemma weighted_err:
  fixes A B C D a b c d a' b' c' d' e :: real
  assumes "\<bar>A\<bar> \<le> 1 / 8" and "\<bar>B\<bar> \<le> 1" and "\<bar>C\<bar> \<le> 1" and "\<bar>D\<bar> \<le> 1 / 8"
    and "\<bar>a - a'\<bar> \<le> e" and "\<bar>b - b'\<bar> \<le> e" and "\<bar>c - c'\<bar> \<le> e" and "\<bar>d - d'\<bar> \<le> e"
  shows "\<bar>(A * a + B * b + C * c + D * d) - (A * a' + B * b' + C * c' + D * d')\<bar> \<le> 9 / 4 * e"
proof -
  have e: "0 \<le> e" using assms(5) by linarith
  have "(A * a + B * b + C * c + D * d) - (A * a' + B * b' + C * c' + D * d')
      = A * (a - a') + B * (b - b') + C * (c - c') + D * (d - d')"
    by (simp add: algebra_simps)
  also have "\<bar>\<dots>\<bar> \<le> \<bar>A * (a - a')\<bar> + \<bar>B * (b - b')\<bar> + \<bar>C * (c - c')\<bar> + \<bar>D * (d - d')\<bar>"
    by linarith
  also have "\<dots> \<le> 1 / 8 * e + 1 * e + 1 * e + 1 / 8 * e"
    unfolding abs_mult using assms e by (intro add_mono mult_mono) simp_all
  finally show ?thesis by simp
qed

text \<open>Cubic interpolation of the sine through four samples spaced \<open>h \<le> 1/40\<close> apart, at the
  offset \<open>s\<close> between the second and the third, is within \<open>61 * 10\<^sup>-\<^sup>8\<close> of the sine.\<close>

lemma interp_nodes:
  fixes s h t :: real
  assumes "0 \<le> s" and "s \<le> 1" and "0 \<le> h" and "h \<le> 1 / 40"
  shows "\<bar>((s * s * (1 / 2) - s * (1 / 3) - s * (1 / 6) * (s * s)) * sin (t + (- 1 - s) * h)
     + (s * (1 / 2) * (s * s) - s * s + (1 - s * (1 / 2))) * sin (t + (0 - s) * h)
     + (s * s * (1 / 2) + s - s * (1 / 2) * (s * s)) * sin (t + (1 - s) * h)
     + (s * (1 / 6) * (s * s) - s * (1 / 6)) * sin (t + (2 - s) * h)) - sin t\<bar> \<le> 61 / 10 ^ 8"
proof -
  have d: "\<bar>(- 1 - s) * h\<bar> \<le> 1 / 20" "\<bar>(0 - s) * h\<bar> \<le> 1 / 20" "\<bar>(1 - s) * h\<bar> \<le> 1 / 20"
    "\<bar>(2 - s) * h\<bar> \<le> 1 / 20"
  proof -
    have "\<bar>(- 1 - s) * h\<bar> \<le> 2 * (1 / 40)"
      unfolding abs_mult using assms by (intro mult_mono) simp_all
    then show "\<bar>(- 1 - s) * h\<bar> \<le> 1 / 20" by simp
    have "\<bar>(0 - s) * h\<bar> \<le> 2 * (1 / 40)"
      unfolding abs_mult using assms by (intro mult_mono) simp_all
    then show "\<bar>(0 - s) * h\<bar> \<le> 1 / 20" by simp
    have "\<bar>(1 - s) * h\<bar> \<le> 2 * (1 / 40)"
      unfolding abs_mult using assms by (intro mult_mono) simp_all
    then show "\<bar>(1 - s) * h\<bar> \<le> 1 / 20" by simp
    have "\<bar>(2 - s) * h\<bar> \<le> 2 * (1 / 40)"
      unfolding abs_mult using assms by (intro mult_mono) simp_all
    then show "\<bar>(2 - s) * h\<bar> \<le> 1 / 20" by simp
  qed
  have A: "\<bar>s * s * (1 / 2) - s * (1 / 3) - s * (1 / 6) * (s * s)\<bar> \<le> 1 / 8"
    using spec_wa_bounds [OF assms(1,2)] by (simp add: abs_le_iff)
  have B: "\<bar>s * (1 / 2) * (s * s) - s * s + (1 - s * (1 / 2))\<bar> \<le> 1"
    using spec_wb_bounds [OF assms(1,2)] by (simp add: abs_le_iff)
  have C: "\<bar>s * s * (1 / 2) + s - s * (1 / 2) * (s * s)\<bar> \<le> 1"
    using spec_wc_bounds [OF assms(1,2)] by (simp add: abs_le_iff)
  have D: "\<bar>s * (1 / 6) * (s * s) - s * (1 / 6)\<bar> \<le> 1 / 8"
    using spec_wd_bounds [OF assms(1,2)] by (simp add: abs_le_iff)
  have "\<bar>((s * s * (1 / 2) - s * (1 / 3) - s * (1 / 6) * (s * s)) * sin (t + (- 1 - s) * h)
     + (s * (1 / 2) * (s * s) - s * s + (1 - s * (1 / 2))) * sin (t + (0 - s) * h)
     + (s * s * (1 / 2) + s - s * (1 / 2) * (s * s)) * sin (t + (1 - s) * h)
     + (s * (1 / 6) * (s * s) - s * (1 / 6)) * sin (t + (2 - s) * h))
    - ((s * s * (1 / 2) - s * (1 / 3) - s * (1 / 6) * (s * s)) * taylor3 (sin t) (cos t) ((- 1 - s) * h)
     + (s * (1 / 2) * (s * s) - s * s + (1 - s * (1 / 2))) * taylor3 (sin t) (cos t) ((0 - s) * h)
     + (s * s * (1 / 2) + s - s * (1 / 2) * (s * s)) * taylor3 (sin t) (cos t) ((1 - s) * h)
     + (s * (1 / 6) * (s * s) - s * (1 / 6)) * taylor3 (sin t) (cos t) ((2 - s) * h))\<bar>
    \<le> 9 / 4 * (27 / 10 ^ 8)"
    using A B C D sin_shift [OF d(1)] sin_shift [OF d(2)] sin_shift [OF d(3)] sin_shift [OF d(4)]
    by (rule weighted_err)
  then show ?thesis unfolding cubic_exact by simp
qed

section \<open>The table position\<close>

text \<open>For a folded position in \<open>[0, 1]\<close> the index and the fractional offset are exact:
  \<open>index + fract = 256 * in\<close>.\<close>

lemma sin_index_exact:
  assumes "round_f32 r = Finite r" and "0 \<le> r" and "r \<le> 1"
  obtains index fract where "sin_index (Finite r) = Inr (index, Finite fract)"
    and "of_int index + fract = 256 * r" and "0 \<le> fract" and "fract < 1"
    and "0 \<le> index" and "index \<le> 256"
proof -
  obtain m e where me: "r = dy m e" "\<bar>m\<bar> < 2 ^ 24" "- 149 \<le> e"
    using assms(1) by (rule round_f32_representable)
  define p where "p = 256 * r"
  have p: "p = dy m (e + 8)" by (simp add: p_def me(1) dy_def power_int_add)
  have p0: "0 \<le> p" "p \<le> 256" using assms(2,3) by (simp_all add: p_def)
  then have "\<bar>dy m (e + 8)\<bar> < 2 ^ 128" unfolding p [symmetric] by simp
  then have rp: "round_f32 p = Finite p"
    unfolding p using me(2,3) by (intro round_f32_exact) simp_all
  have t256: "int_to_f32 256 = Finite 256"
    using int_to_f32_exact [of 256] by simp
  define index where "index = \<lfloor>p\<rfloor>"
  have i: "0 \<le> index" "index \<le> 256" using p0 by (simp_all add: index_def le_floor_iff floor_le_iff)
  have ti: "int_to_f32 index = Finite (of_int index)"
    using i by (intro int_to_f32_exact) simp
  have tr: "trunc p = index" using p0 by (simp add: trunc_def index_def)
  have e8: "- 149 \<le> e + 8" using me(3) by simp
  have fr: "round_f32 (p - of_int index) = Finite (p - of_int index)"
    unfolding index_def using p me(2) e8 p0(1) by (rule frac_exact)
  have fsub: "fsub (Finite p) (Finite (of_int index)) = Finite (p - of_int index)"
    unfolding fsub_def fneg.simps fadd.simps using fr
    by (simp only: diff_conv_add_uminus [symmetric])
  have mul: "fmul (Finite 256) (Finite r) = Finite p"
    using rp by (simp add: p_def)
  have "sin_index (Finite r) = Inr (index, Finite (p - of_int index))"
    unfolding sin_index_def TABLE_SIZE_def Let_def t256 mul
    using i by (simp add: tr uint32_to_int32_def ti fsub)
  moreover have "of_int index + (p - of_int index) = 256 * r" by (simp add: p_def)
  moreover have "0 \<le> p - of_int index" "p - of_int index < 1"
    unfolding index_def by linarith+
  ultimately show ?thesis using i by (rule that)
qed

section \<open>The whole routine on moderate inputs\<close>

lemma const_inv_2pi: "dy 10680707 (- 26) = 10680707 / 67108864"
  by (simp add: dy_def)

text \<open>One run of the routine on an input of magnitude at most 100 that is not folded
  to \<open>1.0\<close>: every step is defined, the index is at most 255, and the result is the
  interpolation of four table entries up to rounding.\<close>

lemma arm_sin_f32_run:
  assumes "\<bar>q\<bar> \<le> 100" and "0 \<le> q \<or> sin_fold (Finite q) \<noteq> Inr (Finite 1)"
  obtains u n r index fract a b c d res where
    "\<bar>u - q * (10680707 / 67108864)\<bar> \<le> 1 / 2 ^ 20"
    and "\<bar>r - (u - of_int n)\<bar> \<le> 1 / 2 ^ 24"
    and "of_int index + fract = 256 * r" and "0 \<le> fract" and "fract \<le> 1"
    and "0 \<le> index" and "index \<le> 255"
    and "sinTable index = Inr (Finite a)" and "sinTable (index + 1) = Inr (Finite b)"
    and "sinTable (index + 2) = Inr (Finite c)" and "sinTable (index + 3) = Inr (Finite d)"
    and "arm_sin_f32 (Finite q) = Inr (Finite res)"
    and "\<bar>res - ((fract * fract * (1 / 2) - fract * (1 / 3) - fract * (1 / 6) * (fract * fract)) * a
          + b * (fract * (1 / 2) * (fract * fract) - fract * fract + (1 - fract * (1 / 2)))
          + (c * (fract * fract * (1 / 2) + fract - fract * (1 / 2) * (fract * fract))
             + d * (fract * (1 / 6) * (fract * fract) - fract * (1 / 6))))\<bar> \<le> 379 / 2 ^ 27"
proof -
  have "\<bar>q\<bar> \<le> 10 ^ 8" using assms(1) by simp
  then obtain u n r where u: "round_f32 (q * dy 10680707 (- 26)) = Finite u"
    and r: "round_f32 (u - of_int n) = Finite r"
    and fold: "sin_fold (Finite q) = Inr (Finite r)"
    and r01: "0 \<le> r" "r \<le> 1" and rpos: "0 \<le> q \<longrightarrow> r < 1"
    and un: "\<bar>u - of_int n\<bar> \<le> 1"
    by (rule sin_fold_detail)
  have "\<bar>q * dy 10680707 (- 26)\<bar> \<le> 100 * (10680707 / 67108864)"
    unfolding const_inv_2pi abs_mult using assms(1) by (intro mult_mono) simp_all
  then have s1: "\<bar>q * dy 10680707 (- 26)\<bar> \<le> 2 powi 4" by simp
  have s2: "\<bar>q * dy 10680707 (- 26) - q * dy 10680707 (- 26)\<bar> \<le> 0" by simp
  obtain u' where "round_f32 (q * dy 10680707 (- 26)) = Finite u'"
    and "\<bar>u' - q * dy 10680707 (- 26)\<bar> \<le> 0 + 2 powi (4 - 24)"
    using s1 _ _ s2 by (rule round_step [where k = 4 and d = 0]) simp_all
  then have 1: "\<bar>u - q * (10680707 / 67108864)\<bar> \<le> 1 / 2 ^ 20"
    using u by (simp add: const_inv_2pi)
  have t1: "\<bar>u - of_int n\<bar> \<le> 2 powi 0" using un by simp
  have t2: "\<bar>(u - of_int n) - (u - of_int n)\<bar> \<le> 0" by simp
  obtain r' where "round_f32 (u - of_int n) = Finite r'"
    and "\<bar>r' - (u - of_int n)\<bar> \<le> 0 + 2 powi (0 - 24)"
    using t1 _ _ t2 by (rule round_step [where k = 0 and d = 0]) simp_all
  then have 2: "\<bar>r - (u - of_int n)\<bar> \<le> 1 / 2 ^ 24"
    using r by simp
  have rr: "round_f32 r = Finite r" using r by (rule round_f32_idem)
  have "r \<noteq> 1" using assms(2) rpos fold by auto
  then have r1: "r < 1" using r01(2) by simp
  obtain index fract where idx: "sin_index (Finite r) = Inr (index, Finite fract)"
    and pos: "of_int index + fract = 256 * r" and f: "0 \<le> fract" "fract < 1"
    and i0: "0 \<le> index"
    using rr r01 by (rule sin_index_exact)
  have "of_int index < (256::rat)" using pos f(1) r1 by linarith
  then have "index < 256" by (simp only: of_int_less_numeral_iff)
  then have i1: "index \<le> 255" by simp
  have f1: "fract \<le> 1" using f(2) by simp
  obtain a where a: "sinTable index = Inr (Finite a)" and a1: "\<bar>a\<bar> \<le> 1"
    using i0 i1 by (auto intro: sinTable_accurate [of index])
  obtain b where b: "sinTable (index + 1) = Inr (Finite b)" and b1: "\<bar>b\<bar> \<le> 1"
    using i0 i1 by (auto intro: sinTable_accurate [of "index + 1"])
  obtain c where c: "sinTable (index + 2) = Inr (Finite c)" and c1: "\<bar>c\<bar> \<le> 1"
    using i0 i1 by (auto intro: sinTable_accurate [of "index + 2"])
  obtain d where d: "sinTable (index + 3) = Inr (Finite d)" and d1: "\<bar>d\<bar> \<le> 1"
    using i0 i1 by (auto intro: sinTable_accurate [of "index + 3"])
  have fetch: "sin_fetch index = Inr (Finite a, Finite b, Finite c, Finite d)"
    unfolding sin_fetch_def by (simp add: a b c d)
  obtain wa wb wc wd where
    w: "sin_weights (Finite fract) = (Finite wa, Finite wb, Finite wc, Finite wd)"
    and ea: "\<bar>wa - (fract * fract * (1 / 2) - fract * (1 / 3) - fract * (1 / 6) * (fract * fract))\<bar>
      \<le> 45 / 2 ^ 27"
    and eb: "\<bar>wb - (fract * (1 / 2) * (fract * fract) - fract * fract + (1 - fract * (1 / 2)))\<bar>
      \<le> 22 / 2 ^ 25"
    and ec: "\<bar>wc - (fract * fract * (1 / 2) + fract - fract * (1 / 2) * (fract * fract))\<bar>
      \<le> 17 / 2 ^ 25"
    and ed: "\<bar>wd - (fract * (1 / 6) * (fract * fract) - fract * (1 / 6))\<bar> \<le> 14 / 2 ^ 27"
    using f(1) f1 by (rule sin_weights_err)
  have A: "\<bar>fract * fract * (1 / 2) - fract * (1 / 3) - fract * (1 / 6) * (fract * fract)\<bar> \<le> 1 / 8"
    using spec_wa_bounds [OF f(1) f1] by (simp add: abs_le_iff)
  have B: "\<bar>fract * (1 / 2) * (fract * fract) - fract * fract + (1 - fract * (1 / 2))\<bar> \<le> 1"
    using spec_wb_bounds [OF f(1) f1] by (simp add: abs_le_iff)
  have C: "\<bar>fract * fract * (1 / 2) + fract - fract * (1 / 2) * (fract * fract)\<bar> \<le> 1"
    using spec_wc_bounds [OF f(1) f1] by (simp add: abs_le_iff)
  have D: "\<bar>fract * (1 / 6) * (fract * fract) - fract * (1 / 6)\<bar> \<le> 1 / 8"
    using spec_wd_bounds [OF f(1) f1] by (simp add: abs_le_iff)
  obtain res where res: "fadd (fadd (fmul (Finite wa) (Finite a)) (fmul (Finite b) (Finite wb)))
       (fadd (fmul (Finite c) (Finite wc)) (fmul (Finite d) (Finite wd))) = Finite res"
    and err: "\<bar>res - ((fract * fract * (1 / 2) - fract * (1 / 3) - fract * (1 / 6) * (fract * fract)) * a
          + b * (fract * (1 / 2) * (fract * fract) - fract * fract + (1 - fract * (1 / 2)))
          + (c * (fract * fract * (1 / 2) + fract - fract * (1 / 2) * (fract * fract))
             + d * (fract * (1 / 6) * (fract * fract) - fract * (1 / 6))))\<bar> \<le> 379 / 2 ^ 27"
    using ea eb ec ed A B C D a1 b1 c1 d1 by (rule interp_sum_err)
  have run: "arm_sin_f32 (Finite q) = Inr (Finite res)"
    by (simp only: arm_sin_f32_def fold idx fetch w res sum.case prod.case Let_def)
  from 1 2 pos f(1) f1 i0 i1 a b c d run err show ?thesis by (rule that)
qed

lemma sin_minus_periods:
  fixes x :: real
  shows "sin (x - 2 * pi * of_int n) = sin x"
proof -
  have "sin (x - 2 * pi * of_int n) = sin x * cos (2 * pi * of_int n) - cos x * sin (2 * pi * of_int n)"
    by (rule sin_diff)
  then show ?thesis by simp
qed

lemma abs_sub_le:
  fixes x a b :: "'a::linordered_idom"
  assumes "x = a - b" and "\<bar>a\<bar> \<le> ea" and "\<bar>b\<bar> \<le> eb" and "ea + eb \<le> e"
  shows "\<bar>x\<bar> \<le> e"
  using assms by linarith

text \<open>The angle the table is read at, against the input: the constant \<open>0.159154943092f\<close>
  is not \<open>1 / (2 pi)\<close>, the product is rounded, and so is the subtraction.\<close>

lemma phase_err:
  fixes Q U R N :: real
  assumes "\<bar>Q\<bar> \<le> 100" and "\<bar>U - Q * (10680707 / 67108864)\<bar> \<le> 1 / 2 ^ 20"
    and "\<bar>R - (U - N)\<bar> \<le> 1 / 2 ^ 24"
  shows "\<bar>(Q - 2 * pi * N) - 2 * pi * R\<bar> \<le> 106 / 10 ^ 7"
proof -
  have k: "\<bar>1 - 2 * pi * (10680707 / 67108864)\<bar> \<le> 415 / 10 ^ 10"
    using pi_bounds by (simp add: abs_le_iff)
  have p: "\<bar>2 * pi\<bar> \<le> 62832 / 10 ^ 4" using pi_bounds by simp
  have "\<bar>(U - Q * (10680707 / 67108864)) + (R - (U - N))\<bar> \<le> 1 / 2 ^ 20 + 1 / 2 ^ 24"
    using assms(2,3) by linarith
  then have m: "\<bar>2 * pi * ((U - Q * (10680707 / 67108864)) + (R - (U - N)))\<bar>
      \<le> 62832 / 10 ^ 4 * (1 / 2 ^ 20 + 1 / 2 ^ 24)"
    unfolding abs_mult [of "2 * pi"] using p by (intro mult_mono) simp_all
  have q: "\<bar>Q * (1 - 2 * pi * (10680707 / 67108864))\<bar> \<le> 100 * (415 / 10 ^ 10)"
    unfolding abs_mult using assms(1) k by (intro mult_mono) simp_all
  have "(Q - 2 * pi * N) - 2 * pi * R = Q * (1 - 2 * pi * (10680707 / 67108864))
      - 2 * pi * ((U - Q * (10680707 / 67108864)) + (R - (U - N)))"
    by (simp add: algebra_simps)
  then show ?thesis using q m by (rule abs_sub_le) simp
qed

lemma abs_chain4:
  fixes a b c d e :: "'a::linordered_field"
  assumes "\<bar>a - b\<bar> \<le> e1" and "\<bar>b - c\<bar> \<le> e2" and "\<bar>c - d\<bar> \<le> e3" and "\<bar>d - e\<bar> \<le> e4"
    and "e1 + e2 + e3 + e4 \<le> t"
  shows "\<bar>a - e\<bar> \<le> t"
  using assms by linarith

lemma arm_sin_f32_close:
  assumes "\<bar>q\<bar> \<le> 100" and "0 \<le> q \<or> sin_fold (Finite q) \<noteq> Inr (Finite 1)"
  obtains res where "arm_sin_f32 (Finite q) = Inr (Finite res)"
    and "\<bar>of_rat res - sin (of_rat q :: real)\<bar> \<le> 15 / 10 ^ 6"
proof -
  obtain u n r index fract a b c d res where
    1: "\<bar>u - q * (10680707 / 67108864)\<bar> \<le> 1 / 2 ^ 20"
    and 2: "\<bar>r - (u - of_int n)\<bar> \<le> 1 / 2 ^ 24"
    and pos: "of_int index + fract = 256 * r" and f: "0 \<le> fract" "fract \<le> 1"
    and i: "0 \<le> index" "index \<le> 255"
    and a: "sinTable index = Inr (Finite a)" and b: "sinTable (index + 1) = Inr (Finite b)"
    and c: "sinTable (index + 2) = Inr (Finite c)" and d: "sinTable (index + 3) = Inr (Finite d)"
    and run: "arm_sin_f32 (Finite q) = Inr (Finite res)"
    and err: "\<bar>res - ((fract * fract * (1 / 2) - fract * (1 / 3) - fract * (1 / 6) * (fract * fract)) * a
          + b * (fract * (1 / 2) * (fract * fract) - fract * fract + (1 - fract * (1 / 2)))
          + (c * (fract * fract * (1 / 2) + fract - fract * (1 / 2) * (fract * fract))
             + d * (fract * (1 / 6) * (fract * fract) - fract * (1 / 6))))\<bar> \<le> 379 / 2 ^ 27"
    using assms by (rule arm_sin_f32_run)
  define Q U R S :: real where "Q = of_rat q" and "U = of_rat u" and "R = of_rat r"
    and "S = of_rat fract"
  define h t :: real where "h = pi / 128" and "t = 2 * pi * R"
  have "\<bar>of_rat u - of_rat (q * (10680707 / 67108864))\<bar> \<le> (of_rat (1 / 2 ^ 20) :: real)"
    using 1 by (rule of_rat_abs_le)
  then have u: "\<bar>U - Q * (10680707 / 67108864)\<bar> \<le> 1 / 2 ^ 20"
    by (simp add: U_def Q_def of_rat_mult of_rat_divide of_rat_power)
  have "\<bar>of_rat r - of_rat (u - of_int n)\<bar> \<le> (of_rat (1 / 2 ^ 24) :: real)"
    using 2 by (rule of_rat_abs_le)
  then have r: "\<bar>R - (U - of_int n)\<bar> \<le> 1 / 2 ^ 24"
    by (simp add: U_def R_def of_rat_diff of_rat_divide of_rat_power)
  have Q: "\<bar>Q\<bar> \<le> 100"
    using of_rat_less_eq [of "\<bar>q\<bar>" 100, where ?'a = real] assms(1) by (simp add: Q_def)
  have "\<bar>(Q - 2 * pi * of_int n) - 2 * pi * R\<bar> \<le> 106 / 10 ^ 7"
    using Q u r by (rule phase_err)
  then have "\<bar>sin (Q - 2 * pi * of_int n) - sin (2 * pi * R)\<bar> \<le> 106 / 10 ^ 7"
    using sin_lipschitz [of "Q - 2 * pi * of_int n" "2 * pi * R"] by linarith
  then have e4: "\<bar>sin t - sin Q\<bar> \<le> 106 / 10 ^ 7"
    unfolding sin_minus_periods t_def by (simp only: abs_minus_commute)
  have S: "0 \<le> S" "S \<le> 1" using f by (simp_all add: S_def)
  have "(of_rat (of_int index + fract) :: real) = of_rat (256 * r)" using pos by simp
  then have p: "of_int index + S = 256 * R"
    by (simp add: S_def R_def of_rat_add of_rat_mult)
  have h: "0 \<le> h" "h \<le> 1 / 40" using pi_bounds by (simp_all add: h_def)
  have t: "t = (of_int index + S) * h" unfolding p by (simp add: t_def h_def)
  have n0: "pi * (of_int index - 1) / 128 = t + (- 1 - S) * h"
    unfolding t by (simp add: h_def field_simps)
  have n1: "pi * (of_int (index + 1) - 1) / 128 = t + (0 - S) * h"
    unfolding t by (simp add: h_def field_simps)
  have n2: "pi * (of_int (index + 2) - 1) / 128 = t + (1 - S) * h"
    unfolding t by (simp add: h_def field_simps)
  have n3: "pi * (of_int (index + 3) - 1) / 128 = t + (2 - S) * h"
    unfolding t by (simp add: h_def field_simps)
  have ta: "\<bar>of_rat a - sin (t + (- 1 - S) * h)\<bar> \<le> 3 / 10 ^ 7"
    using i a sinTable_accurate [of index] unfolding n0 [symmetric] by auto
  have tb: "\<bar>of_rat b - sin (t + (0 - S) * h)\<bar> \<le> 3 / 10 ^ 7"
    using i b sinTable_accurate [of "index + 1"] unfolding n1 [symmetric] by auto
  have tc: "\<bar>of_rat c - sin (t + (1 - S) * h)\<bar> \<le> 3 / 10 ^ 7"
    using i c sinTable_accurate [of "index + 2"] unfolding n2 [symmetric] by auto
  have td: "\<bar>of_rat d - sin (t + (2 - S) * h)\<bar> \<le> 3 / 10 ^ 7"
    using i d sinTable_accurate [of "index + 3"] unfolding n3 [symmetric] by auto
  define A B C D where "A = S * S * (1 / 2) - S * (1 / 3) - S * (1 / 6) * (S * S)"
    and "B = S * (1 / 2) * (S * S) - S * S + (1 - S * (1 / 2))"
    and "C = S * S * (1 / 2) + S - S * (1 / 2) * (S * S)"
    and "D = S * (1 / 6) * (S * S) - S * (1 / 6)"
  have A: "\<bar>A\<bar> \<le> 1 / 8" unfolding A_def using spec_wa_bounds [OF S] by (simp add: abs_le_iff)
  have B: "\<bar>B\<bar> \<le> 1" unfolding B_def using spec_wb_bounds [OF S] by (simp add: abs_le_iff)
  have C: "\<bar>C\<bar> \<le> 1" unfolding C_def using spec_wc_bounds [OF S] by (simp add: abs_le_iff)
  have D: "\<bar>D\<bar> \<le> 1 / 8" unfolding D_def using spec_wd_bounds [OF S] by (simp add: abs_le_iff)
  have "\<bar>of_rat res - of_rat ((fract * fract * (1 / 2) - fract * (1 / 3) - fract * (1 / 6) * (fract * fract)) * a
          + b * (fract * (1 / 2) * (fract * fract) - fract * fract + (1 - fract * (1 / 2)))
          + (c * (fract * fract * (1 / 2) + fract - fract * (1 / 2) * (fract * fract))
             + d * (fract * (1 / 6) * (fract * fract) - fract * (1 / 6))))\<bar>
      \<le> (of_rat (379 / 2 ^ 27) :: real)"
    using err by (rule of_rat_abs_le)
  moreover have "(of_rat ((fract * fract * (1 / 2) - fract * (1 / 3) - fract * (1 / 6) * (fract * fract)) * a
          + b * (fract * (1 / 2) * (fract * fract) - fract * fract + (1 - fract * (1 / 2)))
          + (c * (fract * fract * (1 / 2) + fract - fract * (1 / 2) * (fract * fract))
             + d * (fract * (1 / 6) * (fract * fract) - fract * (1 / 6)))) :: real)
      = A * of_rat a + B * of_rat b + C * of_rat c + D * of_rat d"
    by (simp add: A_def B_def C_def D_def S_def of_rat_add of_rat_mult of_rat_diff of_rat_divide)
  ultimately have e1: "\<bar>of_rat res - (A * of_rat a + B * of_rat b + C * of_rat c + D * of_rat d)\<bar>
      \<le> 379 / 2 ^ 27"
    by (simp add: of_rat_divide of_rat_power)
  have e2: "\<bar>(A * of_rat a + B * of_rat b + C * of_rat c + D * of_rat d)
      - (A * sin (t + (- 1 - S) * h) + B * sin (t + (0 - S) * h) + C * sin (t + (1 - S) * h)
          + D * sin (t + (2 - S) * h))\<bar> \<le> 9 / 4 * (3 / 10 ^ 7)"
    using A B C D ta tb tc td by (rule weighted_err)
  have e3: "\<bar>(A * sin (t + (- 1 - S) * h) + B * sin (t + (0 - S) * h) + C * sin (t + (1 - S) * h)
          + D * sin (t + (2 - S) * h)) - sin t\<bar> \<le> 61 / 10 ^ 8"
    unfolding A_def B_def C_def D_def using S h by (rule interp_nodes)
  have "\<bar>of_rat res - sin Q\<bar> \<le> 15 / 10 ^ 6"
    using e1 e2 e3 e4 by (rule abs_chain4) simp
  with run show ?thesis unfolding Q_def by (rule that)
qed

lemma sin_fold_minus_half:
  "sin_fold (Finite (dy (- 1) (- 1))) = Inr (Finite (dy 15442128 (- 24)))"
  by (simp add: sin_fold_dy int32_sub_def dy_eq_iff f32_eval)

lemma arm_sin_f32_1e8: "arm_sin_f32 (Finite (dy 12500000 3)) = Inr (Finite (dy 0 0))"
  by (simp add: routine_eval sinTable_0 sinTable_1 sinTable_2 sinTable_3)

lemma sin_1e8: "87 / 100 < sin (100000000 :: real)"
proof -
  define t :: real where "t = pi / 2 - (100000000 - 2 * pi * of_int 15915494)"
  have t: "\<bar>t\<bar> \<le> 1 / 2" using pi_bounds by (simp add: t_def abs_le_iff)
  have "\<bar>t\<bar> ^ 4 \<le> (1 / 2) ^ 4" using t by (intro power_mono) simp_all
  then have p4: "\<bar>t\<bar> ^ 4 \<le> 1 / 16" by (simp add: power_divide)
  have "t ^ 2 \<le> (1 / 2) ^ 2" using t by (simp only: abs_le_square_iff [symmetric])
  then have p2: "t ^ 2 \<le> 1 / 4" by (simp add: power_divide)
  have "- (\<bar>t\<bar> ^ 4 / 24) \<le> cos t - (1 - t ^ 2 / 2)" using cos_taylor [of t] by linarith
  then have "87 / 100 < cos t" using p4 p2 by linarith
  moreover have "sin (100000000 - 2 * pi * of_int 15915494) = cos t"
    unfolding t_def by (simp add: cos_sin_eq)
  ultimately show ?thesis by (simp only: sin_minus_periods)
qed

text \<open>
  C7. The claim: over all real inputs the routine's result is within \<open>10\<^sup>-\<^sup>4\<close> of the sine.
  The multiplication by \<^verbatim>\<open>0.159154943092f\<close> is rounded to single precision, so for large
  inputs the position within the period is lost: at \<open>x = 10\<^sup>8\<close> the product rounds to the
  integer \<open>15915494\<close>, the routine returns \<open>0\<close>, and \<open>sin (10\<^sup>8)\<close> is above \<open>0.87\<close>.
\<close>

theorem arm_sin_f32_far_from_sine:
  "is_finite (Finite (10 ^ 8))
   \<and> arm_sin_f32 (Finite (10 ^ 8)) = Inr (Finite 0)
   \<and> 1 / 10 ^ 4 < \<bar>of_rat 0 - sin (of_rat (10 ^ 8) :: real)\<bar>"
proof -
  have x: "Finite (10 ^ 8) = Finite (dy 12500000 3)" and z: "Finite 0 = Finite (dy 0 0)"
    by (simp_all add: dy_def)
  have "is_finite (Finite (10 ^ 8))" unfolding x by (rule is_finite_dy) simp_all
  moreover have "arm_sin_f32 (Finite (10 ^ 8)) = Inr (Finite 0)"
    unfolding x z by (rule arm_sin_f32_1e8)
  moreover have "1 / 10 ^ 4 < \<bar>of_rat 0 - sin (of_rat (10 ^ 8) :: real)\<bar>"
    using sin_1e8 by (simp add: of_rat_power)
  ultimately show ?thesis by (intro conjI)
qed

text \<open>
  C7, as amended: for every finite single-precision input \<open>x\<close> with \<open>|x| \<le> 100\<close> that is
  non-negative or not folded to the position \<open>1.0\<close>, the routine returns a finite value
  within \<open>10\<^sup>-\<^sup>4\<close> of \<open>sin x\<close>. (A negative input folded to \<open>1.0\<close> reads outside the table,
  see C1; the statement says nothing about it.)
\<close>

theorem arm_sin_f32_accuracy:
  assumes "is_finite (Finite q)" and "\<bar>q\<bar> \<le> 100"
    and "0 \<le> q \<or> sin_fold (Finite q) \<noteq> Inr (Finite 1)"
  shows "\<exists>r. arm_sin_f32 (Finite q) = Inr (Finite r)
           \<and> \<bar>of_rat r - sin (of_rat q :: real)\<bar> \<le> 1 / 10 ^ 4"
proof -
  obtain res where "arm_sin_f32 (Finite q) = Inr (Finite res)"
    and "\<bar>of_rat res - sin (of_rat q :: real)\<bar> \<le> 15 / 10 ^ 6"
    using assms(2,3) by (rule arm_sin_f32_close)
  moreover have "(15 :: real) / 10 ^ 6 \<le> 1 / 10 ^ 4" by simp
  ultimately show ?thesis by (intro exI [of _ res] conjI) (assumption, rule order_trans)
qed

theorem arm_sin_f32_accuracy_witness:
  "is_finite (Finite (- (1 / 2))) \<and> \<bar>- (1 / 2) :: rat\<bar> \<le> 100
   \<and> sin_fold (Finite (- (1 / 2))) \<noteq> Inr (Finite 1)
   \<and> (\<exists>r. arm_sin_f32 (Finite (- (1 / 2))) = Inr (Finite r)
           \<and> \<bar>of_rat r - sin (of_rat (- (1 / 2)) :: real)\<bar> \<le> 1 / 10 ^ 4)"
proof -
  have x: "Finite (- (1 / 2)) = Finite (dy (- 1) (- 1))" by (simp add: dy_def)
  have f: "is_finite (Finite (- (1 / 2)))" unfolding x by (rule is_finite_dy) simp_all
  have s: "sin_fold (Finite (- (1 / 2))) \<noteq> Inr (Finite 1)"
    unfolding x sin_fold_minus_half by (simp add: dy_def)
  show ?thesis using arm_sin_f32_accuracy [of "- (1 / 2)"] f s by simp
qed

end
